theory Spec2Isabelle
  imports Complex_Main "HOL-Library.Multiset"
begin

section \<open>Common definitions\<close>

text \<open>
  The library stores \<^verbatim>\<open>float\<close> values. They are modelled as real numbers: sums, differences
  and products are exact, and the comparison \<open><\<close> is a strict linear order (no NaN).
  \<^verbatim>\<open>size_t\<close> and the non-negative \<^verbatim>\<open>int\<close> layer numbers are natural numbers: the model
  covers the executions in which no index or size computation wraps around (\<^verbatim>\<open>M * 2\<close> in the
  constructor of the HNSW index is the only one that multiplies an argument of the caller).
\<close>

type_synonym vec = "real list"

text \<open>
  \<open>DimensionMismatch\<close> is the \<^verbatim>\<open>std::invalid_argument\<close> thrown by the dimension checks.
  \<open>OutOfBounds\<close> marks a read or write outside a \<^verbatim>\<open>std::vector\<close> (or \<^verbatim>\<open>top()\<close> on an empty
  queue), which the C++ code does not check; a state returned next to it carries no meaning.
\<close>

datatype error = DimensionMismatch | OutOfBounds

text \<open>
  \<^verbatim>\<open>l2_distance_simd\<close>, scalar path: \<^verbatim>\<open>for (i = 0; i < dimensions; ++i) { diff = a[i] - b[i];
  result += diff * diff; }\<close>. The vectorised paths add the same terms in another order.
\<close>

definition l2_distance_simd :: "real list \<Rightarrow> real list \<Rightarrow> nat \<Rightarrow> real" where
  "l2_distance_simd a b dimensions =
     fold (\<lambda>i result. result + (a ! i - b ! i) * (a ! i - b ! i)) [0..<dimensions] 0"

text \<open>\<^verbatim>\<open>&data_[id * dimensions_]\<close> followed by reads of \<^verbatim>\<open>dimensions_\<close> floats.\<close>

definition row_ptr :: "real list \<Rightarrow> nat \<Rightarrow> nat \<Rightarrow> error + real list" where
  "row_ptr data dimensions i =
     (if (i + 1) * dimensions \<le> length data then Inr (drop (i * dimensions) data)
      else Inl OutOfBounds)"

section \<open>Brute-force index: \<^verbatim>\<open>VectorBatchInserter\<close>\<close>

record VectorBatchInserter =
  dimensions_v :: nat
  num_vectors_v :: nat
  data_v :: "real list"

definition VectorBatchInserter_new :: "nat \<Rightarrow> VectorBatchInserter" where
  "VectorBatchInserter_new dimensions =
     \<lparr>dimensions_v = dimensions, num_vectors_v = 0, data_v = []\<rparr>"

text \<open>
  A mutating call returns the exception it threw, if any, and the state it left behind.
\<close>

definition bf_add :: "VectorBatchInserter \<Rightarrow> vec \<Rightarrow> error option \<times> VectorBatchInserter" where
  "bf_add s vector =
     (if length vector \<noteq> dimensions_v s then (Some DimensionMismatch, s)
      else (None, s\<lparr>data_v := data_v s @ vector, num_vectors_v := num_vectors_v s + 1\<rparr>))"

definition bf_add_batch ::
  "VectorBatchInserter \<Rightarrow> vec list \<Rightarrow> error option \<times> VectorBatchInserter" where
  "bf_add_batch s vectors =
     (if list_ex (\<lambda>vec. length vec \<noteq> dimensions_v s) vectors then (Some DimensionMismatch, s)
      else (None, s\<lparr>data_v := fold (\<lambda>vec d. d @ vec) vectors (data_v s),
                     num_vectors_v := num_vectors_v s + length vectors\<rparr>))"

definition bf_clear :: "VectorBatchInserter \<Rightarrow> VectorBatchInserter" where
  "bf_clear s = s\<lparr>data_v := [], num_vectors_v := 0\<rparr>"

text \<open>The scan loop of \<^verbatim>\<open>search\<close>: after \<open>n\<close> iterations \<^verbatim>\<open>distances\<close> holds \<open>n\<close> pairs.\<close>

primrec bf_scan :: "VectorBatchInserter \<Rightarrow> vec \<Rightarrow> nat \<Rightarrow> error + (nat \<times> real) list" where
  "bf_scan s query 0 = Inr []"
| "bf_scan s query (Suc i) =
     (case bf_scan s query i of
        Inl e \<Rightarrow> Inl e
      | Inr distances \<Rightarrow>
          (case row_ptr (data_v s) (dimensions_v s) i of
             Inl e \<Rightarrow> Inl e
           | Inr vector_ptr \<Rightarrow>
               Inr (distances @ [(i, l2_distance_simd query vector_ptr (dimensions_v s))])))"

text \<open>The comparator handed to \<^verbatim>\<open>std::partial_sort\<close>: \<^verbatim>\<open>a.second < b.second\<close>.\<close>

definition second_less :: "nat \<times> real \<Rightarrow> nat \<times> real \<Rightarrow> bool" where
  "second_less a b = (snd a < snd b)"

text \<open>
  \<^verbatim>\<open>std::partial_sort\<close> belongs to the C++ standard library, so \<^verbatim>\<open>search\<close> takes it as the
  parameter \<open>partial_sort\<close>: \<open>partial_sort middle cmp xs\<close> is the range after the call
  \<^verbatim>\<open>std::partial_sort(first, first + middle, last, cmp)\<close>.
\<close>

definition bf_search ::
  "(nat \<Rightarrow> (nat \<times> real \<Rightarrow> nat \<times> real \<Rightarrow> bool) \<Rightarrow> (nat \<times> real) list \<Rightarrow> (nat \<times> real) list) \<Rightarrow>
   VectorBatchInserter \<Rightarrow> vec \<Rightarrow> nat \<Rightarrow> error + (nat \<times> real) list" where
  "bf_search partial_sort s query k =
     (if length query \<noteq> dimensions_v s then Inl DimensionMismatch
      else if num_vectors_v s = 0 then Inr []
      else
        (case bf_scan s query (num_vectors_v s) of
           Inl e \<Rightarrow> Inl e
         | Inr distances \<Rightarrow>
             Inr (take (min k (num_vectors_v s))
                    (partial_sort (min k (num_vectors_v s)) second_less distances))))"


text \<open>
  Two library implementations that meet the contract: both sort the whole range by
  insertion; \<open>partial_sort_fifo\<close> keeps equivalent elements in input order,
  \<open>partial_sort_lifo\<close> reverses them.
\<close>

definition partial_sort_fifo ::
  "nat \<Rightarrow> (nat \<times> real \<Rightarrow> nat \<times> real \<Rightarrow> bool) \<Rightarrow> (nat \<times> real) list \<Rightarrow> (nat \<times> real) list" where
  "partial_sort_fifo middle cmp xs = sort_key snd xs"
















datatype bf_op = BfAdd vec | BfAddBatch "vec list" | BfSearch vec nat | BfClear

fun bf_step :: "VectorBatchInserter \<Rightarrow> bf_op \<Rightarrow> VectorBatchInserter" where
  "bf_step s (BfAdd v) = snd (bf_add s v)"
| "bf_step s (BfAddBatch vs) = snd (bf_add_batch s vs)"
| "bf_step s (BfSearch q k) = s"
| "bf_step s BfClear = bf_clear s"

definition bf_run :: "nat \<Rightarrow> bf_op list \<Rightarrow> VectorBatchInserter" where
  "bf_run dimensions ops = foldl bf_step (VectorBatchInserter_new dimensions) ops"

text \<open>The arena invariant of the brute-force index.\<close>

definition bf_inv :: "VectorBatchInserter \<Rightarrow> bool" where
  "bf_inv s \<longleftrightarrow> length (data_v s) = num_vectors_v s * dimensions_v s"

text \<open>The squared distance between the query and stored vector \<open>i\<close>, read off the arena.\<close>

definition bf_dist :: "VectorBatchInserter \<Rightarrow> vec \<Rightarrow> nat \<Rightarrow> real" where
  "bf_dist s query i =
     (\<Sum>j<dimensions_v s. (query ! j - data_v s ! (i * dimensions_v s + j))\<^sup>2)"

text \<open>
  The vectors an operation sequence has handed to the index and the index accepted, in id
  order: the reference against which the arena is read.
\<close>

fun bf_stored_step :: "nat \<Rightarrow> vec list \<Rightarrow> bf_op \<Rightarrow> vec list" where
  "bf_stored_step d vs (BfAdd v) = (if length v = d then vs @ [v] else vs)"
| "bf_stored_step d vs (BfAddBatch ws) = (if \<forall>w \<in> set ws. length w = d then vs @ ws else vs)"
| "bf_stored_step d vs (BfSearch q k) = vs"
| "bf_stored_step d vs BfClear = []"

definition bf_stored :: "nat \<Rightarrow> bf_op list \<Rightarrow> vec list" where
  "bf_stored d ops = foldl (bf_stored_step d) [] ops"

section \<open>HNSW index: \<^verbatim>\<open>HNSWIndex\<close>\<close>

record HNSWNode =
  id_n :: nat
  neighbors :: "nat list list"

definition HNSWNode_new :: "nat \<Rightarrow> nat \<Rightarrow> HNSWNode" where
  "HNSWNode_new node_id max_layer = \<lparr>id_n = node_id, neighbors = replicate (max_layer + 1) []\<rparr>"

record SearchCandidate =
  id_c :: nat
  distance :: real

text \<open>\<^verbatim>\<open>operator<\<close> and \<^verbatim>\<open>operator>\<close> of \<^verbatim>\<open>SearchCandidate\<close>.\<close>

definition cand_less :: "SearchCandidate \<Rightarrow> SearchCandidate \<Rightarrow> bool" where
  "cand_less a other = (distance a < distance other)"

definition cand_greater :: "SearchCandidate \<Rightarrow> SearchCandidate \<Rightarrow> bool" where
  "cand_greater a other = (distance a > distance other)"

text \<open>
  \<^verbatim>\<open>std::priority_queue<T, std::vector<T>, Compare>\<close> is kept as a list whose head is
  \<^verbatim>\<open>top()\<close>, a greatest element with respect to \<open>Compare\<close>: \<open>pq_push\<close> is \<^verbatim>\<open>push\<close>, \<open>hd\<close> is
  \<^verbatim>\<open>top()\<close>, \<open>tl\<close> is \<^verbatim>\<open>pop()\<close> and \<open>length\<close> is \<^verbatim>\<open>size()\<close>. Among equivalent elements the
  standard leaves the choice of \<^verbatim>\<open>top()\<close> open; here the one pushed first is on top.
\<close>

fun pq_push ::
  "(SearchCandidate \<Rightarrow> SearchCandidate \<Rightarrow> bool) \<Rightarrow> SearchCandidate \<Rightarrow> SearchCandidate list \<Rightarrow>
   SearchCandidate list" where
  "pq_push cmp x [] = [x]"
| "pq_push cmp x (y # ys) = (if cmp y x then x # y # ys else y # pq_push cmp x ys)"

text \<open>
  \<^verbatim>\<open>std::sort\<close> with \<^verbatim>\<open>operator<\<close>: a permutation in non-descending order of distance
  (equivalent elements are kept in input order here; the standard leaves their order open).
\<close>

definition std_sort :: "SearchCandidate list \<Rightarrow> SearchCandidate list" where
  "std_sort cs = sort_key distance cs"

text \<open>
  The fields of the class keep their names, with \<open>_h\<close> for the trailing underscore.
  \<open>rng_h\<close> counts the calls of \<^verbatim>\<open>get_random_level\<close> since \<^verbatim>\<open>rng_\<close> was seeded with 42: the
  Mersenne twister is deterministic, so its state is a function of that count. The
  parameter \<open>L\<close> of the functions below gives the level computed at each count, that is
  \<open>L n\<close> is \<^verbatim>\<open>static_cast<int>(-std::log(r) * ml_)\<close> for the \<open>n\<close>-th draw \<open>r\<close>; the floating-point
  fields \<^verbatim>\<open>ml_\<close> and \<^verbatim>\<open>level_dist_\<close> occur only there.
\<close>

record HNSWIndex =
  dimensions_h :: nat
  max_elements_h :: nat
  num_vectors_h :: nat
  M_h :: nat
  M_max_h :: nat
  ef_construction_h :: nat
  ef_search_h :: nat
  data_h :: "real list"
  nodes_h :: "HNSWNode list"
  entry_point_h :: nat
  max_layer_h :: nat
  rng_h :: nat

definition HNSWIndex_new :: "nat \<Rightarrow> nat \<Rightarrow> nat \<Rightarrow> nat \<Rightarrow> HNSWIndex" where
  "HNSWIndex_new dimensions max_elements M ef_construction =
     \<lparr>dimensions_h = dimensions, max_elements_h = max_elements, num_vectors_h = 0,
      M_h = M, M_max_h = M * 2, ef_construction_h = ef_construction, ef_search_h = 100,
      data_h = [], nodes_h = [], entry_point_h = 0, max_layer_h = 0, rng_h = 0\<rparr>"

definition get_random_level :: "(nat \<Rightarrow> nat) \<Rightarrow> HNSWIndex \<Rightarrow> nat \<times> HNSWIndex" where
  "get_random_level L s = (L (rng_h s), s\<lparr>rng_h := rng_h s + 1\<rparr>)"

definition distance_between :: "HNSWIndex \<Rightarrow> nat \<Rightarrow> nat \<Rightarrow> error + real" where
  "distance_between s id1 id2 =
     (case row_ptr (data_h s) (dimensions_h s) id1 of
        Inl e \<Rightarrow> Inl e
      | Inr v1 \<Rightarrow>
          (case row_ptr (data_h s) (dimensions_h s) id2 of
             Inl e \<Rightarrow> Inl e
           | Inr v2 \<Rightarrow> Inr (l2_distance_simd v1 v2 (dimensions_h s))))"

definition distance_to_query :: "HNSWIndex \<Rightarrow> vec \<Rightarrow> nat \<Rightarrow> error + real" where
  "distance_to_query s query i =
     (if length query < dimensions_h s then Inl OutOfBounds
      else
        (case row_ptr (data_h s) (dimensions_h s) i of
           Inl e \<Rightarrow> Inl e
         | Inr v \<Rightarrow> Inr (l2_distance_simd query v (dimensions_h s))))"

text \<open>\<^verbatim>\<open>nodes_[u].neighbors[layer]\<close> and whether that access is inside both vectors.\<close>

definition has_layer :: "HNSWIndex \<Rightarrow> nat \<Rightarrow> nat \<Rightarrow> bool" where
  "has_layer s u layer \<longleftrightarrow> u < length (nodes_h s) \<and> layer < length (neighbors (nodes_h s ! u))"

definition nbrs :: "HNSWIndex \<Rightarrow> nat \<Rightarrow> nat \<Rightarrow> nat list" where
  "nbrs s u layer = neighbors (nodes_h s ! u) ! layer"

text \<open>
  The \<^verbatim>\<open>for (size_t neighbor_id : neighbors)\<close> loop inside \<^verbatim>\<open>search_layer\<close>, on the triple
  \<^verbatim>\<open>(visited, candidates, W)\<close>.
\<close>

fun visit_neighbors ::
  "HNSWIndex \<Rightarrow> vec \<Rightarrow> nat \<Rightarrow> nat list \<Rightarrow>
   nat set \<times> SearchCandidate list \<times> SearchCandidate list \<Rightarrow>
   error + nat set \<times> SearchCandidate list \<times> SearchCandidate list" where
  "visit_neighbors s query ef [] st = Inr st"
| "visit_neighbors s query ef (neighbor_id # rest) (visited, candidates, W) =
     (if neighbor_id \<notin> visited then
        (case distance_to_query s query neighbor_id of
           Inl e \<Rightarrow> Inl e
         | Inr d_neighbor \<Rightarrow>
             (case W of
                [] \<Rightarrow> Inl OutOfBounds
              | w # _ \<Rightarrow>
                  if d_neighbor < distance w \<or> length W < ef then
                    visit_neighbors s query ef rest
                      (insert neighbor_id visited,
                       pq_push cand_greater \<lparr>id_c = neighbor_id, distance = d_neighbor\<rparr> candidates,
                       (let W' = pq_push cand_less \<lparr>id_c = neighbor_id, distance = d_neighbor\<rparr> W
                        in if length W' > ef then tl W' else W'))
                  else visit_neighbors s query ef rest (insert neighbor_id visited, candidates, W)))
      else visit_neighbors s query ef rest (visited, candidates, W))"

text \<open>Every id that occurs in a neighbour list of the given layer.\<close>

definition layer_ids :: "HNSWIndex \<Rightarrow> nat \<Rightarrow> nat set" where
  "layer_ids s layer =
     (\<Union>n \<in> set (nodes_h s). if layer < length (neighbors n) then set (neighbors n ! layer) else {})"

lemma finite_layer_ids: "finite (layer_ids s layer)"
  by (simp add: layer_ids_def)

lemma nbrs_subset_layer_ids:
  assumes "u < length (nodes_h s)" and "layer < length (neighbors (nodes_h s ! u))"
  shows "set (neighbors (nodes_h s ! u) ! layer) \<subseteq> layer_ids s layer"
proof -
  have "nodes_h s ! u \<in> set (nodes_h s)"
    using assms(1) by simp
  with assms(2) show ?thesis
    unfolding layer_ids_def by fastforce
qed

lemma length_pq_push: "length (pq_push cmp x q) = Suc (length q)"
  by (induction q) simp_all

lemma visit_neighbors_measure:
  assumes "finite U" and "set ns \<subseteq> U"
    and "visit_neighbors s query ef ns (visited, candidates, W) = Inr (visited', candidates', W')"
  shows "length candidates' + card (U - visited') \<le> length candidates + card (U - visited)"
  using assms(2,3)
proof (induction ns arbitrary: visited candidates W)
  case Nil
  then show ?case by simp
next
  case (Cons n ns)
  have nU: "n \<in> U" and sub: "set ns \<subseteq> U"
    using Cons.prems(1) by simp_all
  show ?case
  proof (cases "n \<in> visited")
    case True
    with Cons.prems(2) have "visit_neighbors s query ef ns (visited, candidates, W)
        = Inr (visited', candidates', W')"
      by simp
    from Cons.IH [OF sub this] show ?thesis .
  next
    case False
    then have "n \<in> U - visited"
      using nU by simp
    then have pos: "card (U - visited) > 0"
      using assms(1) by (metis card_gt_0_iff empty_iff finite_Diff)
    have dec: "card (U - insert n visited) = card (U - visited) - 1"
      using False nU assms(1) by (simp add: card_Diff_insert)
    from Cons.prems(2) False obtain d w ws where
      W: "W = w # ws" and d: "distance_to_query s query n = Inr d"
      by (auto split: sum.splits list.splits)
    show ?thesis
    proof (cases "d < distance w \<or> length W < ef")
      case True
      define W2 where "W2 = (let W' = pq_push cand_less \<lparr>id_c = n, distance = d\<rparr> W
                        in if length W' > ef then tl W' else W')"
      from Cons.prems(2) False W d True
      have "visit_neighbors s query ef ns
              (insert n visited, pq_push cand_greater \<lparr>id_c = n, distance = d\<rparr> candidates, W2)
            = Inr (visited', candidates', W')"
        unfolding W2_def by (simp del: pq_push.simps)
      from Cons.IH [OF sub this] dec pos show ?thesis
        by (simp add: length_pq_push)
    next
      case False
      with Cons.prems(2) \<open>n \<notin> visited\<close> W d
      have "visit_neighbors s query ef ns (insert n visited, candidates, W)
            = Inr (visited', candidates', W')"
        by simp
      from Cons.IH [OF sub this] dec show ?thesis
        by simp
    qed
  qed
qed

text \<open>
  The \<^verbatim>\<open>while (!candidates.empty())\<close> loop of \<^verbatim>\<open>search_layer\<close>. Each round removes one
  candidate, and every candidate it adds is a newly visited id of the layer.
\<close>

function search_loop ::
  "HNSWIndex \<Rightarrow> vec \<Rightarrow> nat \<Rightarrow> nat \<Rightarrow> nat set \<Rightarrow> SearchCandidate list \<Rightarrow> SearchCandidate list \<Rightarrow>
   error + SearchCandidate list" where
  "search_loop s query ef layer visited candidates W =
     (case candidates of
        [] \<Rightarrow> Inr W
      | c # candidates_rest \<Rightarrow>
          (case W of
             [] \<Rightarrow> Inl OutOfBounds
           | w # _ \<Rightarrow>
               if distance c > distance w then Inr W
               else if \<not> has_layer s (id_c c) layer then Inl OutOfBounds
               else
                 (case visit_neighbors s query ef (nbrs s (id_c c) layer)
                         (visited, candidates_rest, W) of
                    Inl e \<Rightarrow> Inl e
                  | Inr (visited', candidates', W') \<Rightarrow>
                      search_loop s query ef layer visited' candidates' W')))"
  by pat_completeness auto
termination
proof (relation "measure (\<lambda>(s, query, ef, layer, visited, candidates, W).
                    length candidates + card (layer_ids s layer - visited))")
  show "wf (measure (\<lambda>(s, query, ef, layer, visited, candidates, W).
                    length candidates + card (layer_ids s layer - visited)))"
    by simp
next
  fix s query ef layer visited candidates W c candidates_rest w ws x visited' y candidates' W'
  assume c: "candidates = c # candidates_rest"
    and hl: "\<not> \<not> has_layer s (id_c c) layer"
    and v: "visit_neighbors s query ef (nbrs s (id_c c) layer) (visited, candidates_rest, W) = Inr x"
    and x: "(visited', y) = x" and y: "(candidates', W') = y"
  have sub: "set (nbrs s (id_c c) layer) \<subseteq> layer_ids s layer"
    using hl nbrs_subset_layer_ids unfolding has_layer_def nbrs_def by simp
  have "visit_neighbors s query ef (nbrs s (id_c c) layer) (visited, candidates_rest, W)
      = Inr (visited', candidates', W')"
    using v x y by simp
  from visit_neighbors_measure [OF finite_layer_ids sub this] c
  show "((s, query, ef, layer, visited', candidates', W'),
         (s, query, ef, layer, visited, candidates, W))
        \<in> measure (\<lambda>(s, query, ef, layer, visited, candidates, W).
                    length candidates + card (layer_ids s layer - visited))"
    by simp
qed

definition search_layer ::
  "HNSWIndex \<Rightarrow> vec \<Rightarrow> nat \<Rightarrow> nat \<Rightarrow> nat \<Rightarrow> error + SearchCandidate list" where
  "search_layer s query entry_id ef layer =
     (case distance_to_query s query entry_id of
        Inl e \<Rightarrow> Inl e
      | Inr d \<Rightarrow>
          (case search_loop s query ef layer {entry_id}
                  [\<lparr>id_c = entry_id, distance = d\<rparr>] [\<lparr>id_c = entry_id, distance = d\<rparr>] of
             Inl e \<Rightarrow> Inl e
           | Inr W \<Rightarrow> Inr (rev W)))"

text \<open>
  The navigation loop shared by \<^verbatim>\<open>add\<close> and \<^verbatim>\<open>search\<close>:
  \<^verbatim>\<open>for (int lc = max_layer_; lc > lo; --lc)\<close> with \<^verbatim>\<open>lo = new_level\<close> in \<^verbatim>\<open>add\<close> and
  \<^verbatim>\<open>lo = 0\<close> in \<^verbatim>\<open>search\<close>.
\<close>

fun descend :: "HNSWIndex \<Rightarrow> vec \<Rightarrow> nat \<Rightarrow> nat \<Rightarrow> nat \<Rightarrow> error + nat" where
  "descend s query curr_nearest lc lo =
     (if lc > lo then
        (case search_layer s query curr_nearest 1 lc of
           Inl e \<Rightarrow> Inl e
         | Inr nearest \<Rightarrow>
             descend s query (if nearest \<noteq> [] then id_c (nearest ! 0) else curr_nearest) (lc - 1) lo)
      else Inr curr_nearest)"

declare descend.simps [simp del]

text \<open>\<^verbatim>\<open>nodes_[u].neighbors[lc].push_back(v)\<close> and \<^verbatim>\<open>nodes_[u].neighbors[lc] = ids\<close>.\<close>

definition set_nbrs :: "HNSWIndex \<Rightarrow> nat \<Rightarrow> nat \<Rightarrow> nat list \<Rightarrow> HNSWIndex" where
  "set_nbrs s u lc ids =
     s\<lparr>nodes_h := (nodes_h s)[u := (nodes_h s ! u)\<lparr>neighbors := (neighbors (nodes_h s ! u))[lc := ids]\<rparr>]\<rparr>"

definition push_neighbor :: "HNSWIndex \<Rightarrow> nat \<Rightarrow> nat \<Rightarrow> nat \<Rightarrow> HNSWIndex" where
  "push_neighbor s u lc v = set_nbrs s u lc (nbrs s u lc @ [v])"

text \<open>The distance loop of \<^verbatim>\<open>prune_connections\<close>.\<close>

fun prune_distances :: "HNSWIndex \<Rightarrow> nat \<Rightarrow> nat list \<Rightarrow> error + SearchCandidate list" where
  "prune_distances s node_id [] = Inr []"
| "prune_distances s node_id (neighbor_id # rest) =
     (case distance_between s node_id neighbor_id of
        Inl e \<Rightarrow> Inl e
      | Inr d \<Rightarrow>
          (case prune_distances s node_id rest of
             Inl e \<Rightarrow> Inl e
           | Inr cs \<Rightarrow> Inr (\<lparr>id_c = neighbor_id, distance = d\<rparr> # cs)))"

definition prune_connections :: "HNSWIndex \<Rightarrow> nat \<Rightarrow> nat \<Rightarrow> nat \<Rightarrow> error + HNSWIndex" where
  "prune_connections s node_id layer M =
     (if \<not> has_layer s node_id layer then Inl OutOfBounds
      else if length (nbrs s node_id layer) \<le> M then Inr s
      else
        (case prune_distances s node_id (nbrs s node_id layer) of
           Inl e \<Rightarrow> Inl e
         | Inr candidates \<Rightarrow>
             Inr (set_nbrs s node_id layer (map id_c (take M (std_sort candidates))))))"

text \<open>The \<^verbatim>\<open>for (const auto& neighbor : neighbors)\<close> loop of \<^verbatim>\<open>add\<close> ("Add bidirectional links").\<close>

fun link_neighbors ::
  "HNSWIndex \<Rightarrow> nat \<Rightarrow> nat \<Rightarrow> nat \<Rightarrow> SearchCandidate list \<Rightarrow> error + HNSWIndex" where
  "link_neighbors s new_id lc M [] = Inr s"
| "link_neighbors s new_id lc M (neighbor # rest) =
     (if \<not> has_layer s new_id lc then Inl OutOfBounds
      else
        let s1 = push_neighbor s new_id lc (id_c neighbor) in
        if \<not> has_layer s1 (id_c neighbor) lc then Inl OutOfBounds
        else
          let s2 = push_neighbor s1 (id_c neighbor) lc new_id in
          if length (nbrs s2 (id_c neighbor) lc) > M then
            (case prune_connections s2 (id_c neighbor) lc M of
               Inl e \<Rightarrow> Inl e
             | Inr s3 \<Rightarrow> link_neighbors s3 new_id lc M rest)
          else link_neighbors s2 new_id lc M rest)"

text \<open>
  One round of the \<^verbatim>\<open>for (int lc = std::min(new_level, max_layer_); lc >= 0; --lc)\<close> loop of
  \<^verbatim>\<open>add\<close>; it returns the state and the new \<^verbatim>\<open>curr_nearest\<close>.
\<close>

definition insert_layer ::
  "HNSWIndex \<Rightarrow> vec \<Rightarrow> nat \<Rightarrow> nat \<Rightarrow> nat \<Rightarrow> error + HNSWIndex \<times> nat" where
  "insert_layer s vector new_id curr_nearest lc =
     (case search_layer s vector curr_nearest (ef_construction_h s) lc of
        Inl e \<Rightarrow> Inl e
      | Inr candidates \<Rightarrow>
          let M = (if lc = 0 then M_max_h s else M_h s);
              neighbors = take M candidates
          in
            (case link_neighbors s new_id lc M neighbors of
               Inl e \<Rightarrow> Inl e
             | Inr s' \<Rightarrow>
                 Inr (s', if neighbors \<noteq> [] then id_c (neighbors ! 0) else curr_nearest)))"

fun insert_layers :: "HNSWIndex \<Rightarrow> vec \<Rightarrow> nat \<Rightarrow> nat \<Rightarrow> nat \<Rightarrow> error + HNSWIndex" where
  "insert_layers s vector new_id curr_nearest 0 =
     (case insert_layer s vector new_id curr_nearest 0 of
        Inl e \<Rightarrow> Inl e
      | Inr (s', curr') \<Rightarrow> Inr s')"
| "insert_layers s vector new_id curr_nearest (Suc lc) =
     (case insert_layer s vector new_id curr_nearest (Suc lc) of
        Inl e \<Rightarrow> Inl e
      | Inr (s', curr') \<Rightarrow> insert_layers s' vector new_id curr' lc)"

definition hnsw_add :: "(nat \<Rightarrow> nat) \<Rightarrow> HNSWIndex \<Rightarrow> vec \<Rightarrow> error option \<times> HNSWIndex" where
  "hnsw_add L s vector =
     (if length vector \<noteq> dimensions_h s then (Some DimensionMismatch, s)
      else
        let new_id = num_vectors_h s;
            (new_level, s0) = get_random_level L s;
            s1 = s0\<lparr>data_h := data_h s0 @ vector\<rparr>;
            s2 = s1\<lparr>nodes_h := nodes_h s1 @ [HNSWNode_new new_id (max new_level (max_layer_h s1))]\<rparr>
        in
          if num_vectors_h s2 = 0 then
            (None, s2\<lparr>entry_point_h := new_id, max_layer_h := new_level,
                      num_vectors_h := num_vectors_h s2 + 1\<rparr>)
          else
            (case descend s2 vector (entry_point_h s2) (max_layer_h s2) new_level of
               Inl e \<Rightarrow> (Some e, s)
             | Inr curr_nearest \<Rightarrow>
                 (case insert_layers s2 vector new_id curr_nearest
                         (min new_level (max_layer_h s2)) of
                    Inl e \<Rightarrow> (Some e, s)
                  | Inr s3 \<Rightarrow>
                      let s4 = (if new_level > max_layer_h s3
                                then s3\<lparr>max_layer_h := new_level, entry_point_h := new_id\<rparr>
                                else s3)
                      in (None, s4\<lparr>num_vectors_h := num_vectors_h s4 + 1\<rparr>))))"

fun hnsw_add_batch ::
  "(nat \<Rightarrow> nat) \<Rightarrow> HNSWIndex \<Rightarrow> vec list \<Rightarrow> error option \<times> HNSWIndex" where
  "hnsw_add_batch L s [] = (None, s)"
| "hnsw_add_batch L s (vec # vectors) =
     (case hnsw_add L s vec of
        (Some e, s') \<Rightarrow> (Some e, s')
      | (None, s') \<Rightarrow> hnsw_add_batch L s' vectors)"

definition hnsw_search :: "HNSWIndex \<Rightarrow> vec \<Rightarrow> nat \<Rightarrow> error + (nat \<times> real) list" where
  "hnsw_search s query k =
     (if length query \<noteq> dimensions_h s then Inl DimensionMismatch
      else if num_vectors_h s = 0 then Inr []
      else
        (case descend s query (entry_point_h s) (max_layer_h s) 0 of
           Inl e \<Rightarrow> Inl e
         | Inr curr_nearest \<Rightarrow>
             (case search_layer s query curr_nearest
                     (max (ef_search_h s) (min k (num_vectors_h s))) 0 of
                Inl e \<Rightarrow> Inl e
              | Inr candidates \<Rightarrow>
                  Inr (map (\<lambda>c. (id_c c, distance c))
                         (take (min k (num_vectors_h s)) candidates)))))"

definition hnsw_clear :: "HNSWIndex \<Rightarrow> HNSWIndex" where
  "hnsw_clear s = s\<lparr>data_h := [], nodes_h := [], num_vectors_h := 0, entry_point_h := 0,
                    max_layer_h := 0\<rparr>"

definition hnsw_set_ef :: "HNSWIndex \<Rightarrow> nat \<Rightarrow> HNSWIndex" where
  "hnsw_set_ef s ef = s\<lparr>ef_search_h := ef\<rparr>"

datatype hnsw_op = Add vec | AddBatch "vec list" | Search vec nat | Clear | SetEf nat

fun hnsw_step :: "(nat \<Rightarrow> nat) \<Rightarrow> HNSWIndex \<Rightarrow> hnsw_op \<Rightarrow> HNSWIndex" where
  "hnsw_step L s (Add v) = snd (hnsw_add L s v)"
| "hnsw_step L s (AddBatch vs) = snd (hnsw_add_batch L s vs)"
| "hnsw_step L s (Search q k) = s"
| "hnsw_step L s Clear = hnsw_clear s"
| "hnsw_step L s (SetEf ef) = hnsw_set_ef s ef"

definition hnsw_run :: "(nat \<Rightarrow> nat) \<Rightarrow> HNSWIndex \<Rightarrow> hnsw_op list \<Rightarrow> HNSWIndex" where
  "hnsw_run L s ops = foldl (hnsw_step L) s ops"

section \<open>Well-formedness of the graph\<close>

text \<open>Row \<open>i\<close> of the arena lies inside \<^verbatim>\<open>data_\<close>.\<close>

definition row_ok :: "HNSWIndex \<Rightarrow> nat \<Rightarrow> bool" where
  "row_ok s i \<longleftrightarrow> (i + 1) * dimensions_h s \<le> length (data_h s)"

text \<open>The squared distance between the query and stored vector \<open>i\<close>, read off the arena.\<close>

definition hnsw_dist :: "HNSWIndex \<Rightarrow> vec \<Rightarrow> nat \<Rightarrow> real" where
  "hnsw_dist s query i =
     (\<Sum>j<dimensions_h s. (query ! j - data_h s ! (i * dimensions_h s + j))\<^sup>2)"

text \<open>
  A set of node ids that a search on \<open>layer\<close> cannot leave: each member has the layer and a
  row, and its neighbours on the layer are members.
\<close>

definition closed_at :: "HNSWIndex \<Rightarrow> nat \<Rightarrow> nat set \<Rightarrow> bool" where
  "closed_at s layer A \<longleftrightarrow>
     (\<forall>u \<in> A. has_layer s u layer \<and> row_ok s u \<and> set (nbrs s u layer) \<subseteq> A)"

text \<open>Every id in a neighbour list of layer \<open>l\<close> names a node that has layer \<open>l\<close>.\<close>

definition links_ok :: "HNSWIndex \<Rightarrow> bool" where
  "links_ok s \<longleftrightarrow>
     (\<forall>u l. has_layer s u l \<longrightarrow> (\<forall>v \<in> set (nbrs s u l). has_layer s v l))"

definition degree_ok :: "HNSWIndex \<Rightarrow> bool" where
  "degree_ok s \<longleftrightarrow>
     (\<forall>u l. has_layer s u l \<longrightarrow> length (nbrs s u l) \<le> (if l = 0 then M_max_h s else M_h s))"

definition hnsw_inv :: "HNSWIndex \<Rightarrow> bool" where
  "hnsw_inv s \<longleftrightarrow>
     length (nodes_h s) = num_vectors_h s \<and>
     length (data_h s) = num_vectors_h s * dimensions_h s \<and>
     links_ok s \<and> degree_ok s \<and>
     (0 < num_vectors_h s \<longrightarrow> has_layer s (entry_point_h s) (max_layer_h s)) \<and>
     M_max_h s = 2 * M_h s"

text \<open>What holds of \<^verbatim>\<open>visited\<close>, \<^verbatim>\<open>candidates\<close> and \<^verbatim>\<open>W\<close> at the head of the search loop.\<close>

definition loop_inv ::
  "HNSWIndex \<Rightarrow> vec \<Rightarrow> nat \<Rightarrow> nat set \<Rightarrow> nat set \<Rightarrow> SearchCandidate list \<Rightarrow>
   SearchCandidate list \<Rightarrow> bool" where
  "loop_inv s query ef A visited candidates W \<longleftrightarrow>
     (\<forall>c \<in> set candidates \<union> set W.
        id_c c \<in> A \<and> id_c c \<in> visited \<and> distance c = hnsw_dist s query (id_c c)) \<and>
     W \<noteq> [] \<and> length W \<le> max ef 1 \<and>
     sorted (rev (map distance W)) \<and> sorted (map distance candidates) \<and>
     distinct (map id_c W)"

text \<open>
  The vectors an operation sequence has handed to the HNSW index and the index accepted,
  in id order.
\<close>

fun hnsw_stored_step :: "nat \<Rightarrow> vec list \<Rightarrow> hnsw_op \<Rightarrow> vec list" where
  "hnsw_stored_step d vs (Add v) = (if length v = d then vs @ [v] else vs)"
| "hnsw_stored_step d vs (AddBatch ws) = vs @ takeWhile (\<lambda>w. length w = d) ws"
| "hnsw_stored_step d vs (Search q k) = vs"
| "hnsw_stored_step d vs Clear = []"
| "hnsw_stored_step d vs (SetEf ef) = vs"

definition hnsw_stored :: "nat \<Rightarrow> hnsw_op list \<Rightarrow> vec list" where
  "hnsw_stored d ops = foldl (hnsw_stored_step d) [] ops"

text \<open>
  How the link loop of \<^verbatim>\<open>add\<close> for \<open>new_id\<close> on layer \<open>lc\<close> may change a state: only
  neighbour lists change, only on layer \<open>lc\<close>, and a list of another node gains at most
  \<open>new_id\<close> and is cut back to \<open>M\<close> entries when it grows beyond.
\<close>

definition linked :: "nat \<Rightarrow> nat \<Rightarrow> nat \<Rightarrow> HNSWIndex \<Rightarrow> HNSWIndex \<Rightarrow> bool" where
  "linked new_id lc M s s' \<longleftrightarrow>
     s' = s\<lparr>nodes_h := nodes_h s'\<rparr> \<and>
     length (nodes_h s') = length (nodes_h s) \<and>
     (\<forall>u l. has_layer s' u l = has_layer s u l) \<and>
     (\<forall>u l. l \<noteq> lc \<longrightarrow> nbrs s' u l = nbrs s u l) \<and>
     (\<forall>u. u \<noteq> new_id \<longrightarrow>
        set (nbrs s' u lc) \<subseteq> insert new_id (set (nbrs s u lc)) \<and>
        length (nbrs s' u lc) \<le> max M (length (nbrs s u lc)))"

text \<open>
  What holds inside \<^verbatim>\<open>add\<close> before layer \<open>lc\<close> is linked: the new node has the layer, has
  no neighbours on it or below, and is nobody's neighbour there.
\<close>

definition inserting :: "HNSWIndex \<Rightarrow> nat \<Rightarrow> nat \<Rightarrow> bool" where
  "inserting s new_id lc \<longleftrightarrow>
     (\<forall>u l. has_layer s u l \<longrightarrow> row_ok s u) \<and> links_ok s \<and> degree_ok s \<and>
     has_layer s new_id lc \<and>
     (\<forall>l \<le> lc. nbrs s new_id l = [] \<and> (\<forall>u. has_layer s u l \<longrightarrow> new_id \<notin> set (nbrs s u l)))"

section \<open>Properties of the brute-force index\<close>



lemma l2_distance_simd_sum:
  "l2_distance_simd a b n = (\<Sum>i<n. (a ! i - b ! i)\<^sup>2)"
proof -
  have "fold (\<lambda>i result. result + (a ! i - b ! i) * (a ! i - b ! i)) [0..<n] r
      = r + (\<Sum>i<n. (a ! i - b ! i)\<^sup>2)" for r
    by (induction n arbitrary: r) (simp_all add: power2_eq_square)
  then show ?thesis
    by (simp add: l2_distance_simd_def)
qed

lemma fold_append_rows: "fold (\<lambda>vec d. d @ vec) vectors data = data @ concat vectors"
  by (induction vectors arbitrary: data) simp_all

lemma length_concat_rows:
  "\<forall>v \<in> set vs. length v = d \<Longrightarrow> length (concat vs) = length vs * d"
  by (induction vs) simp_all

lemma row_of_concat:
  "\<forall>v \<in> set vs. length v = d \<Longrightarrow> i < length vs \<Longrightarrow> take d (drop (i * d) (concat vs)) = vs ! i"
proof (induction vs arbitrary: i)
  case Nil
  then show ?case by simp
next
  case (Cons v vs)
  show ?case
  proof (cases i)
    case 0
    with Cons.prems show ?thesis by simp
  next
    case (Suc j)
    with Cons show ?thesis by simp
  qed
qed

lemma bf_run_stored:
  "bf_run d ops = \<lparr>dimensions_v = d, num_vectors_v = length (bf_stored d ops),
                    data_v = concat (bf_stored d ops)\<rparr> \<and>
   (\<forall>v \<in> set (bf_stored d ops). length v = d)"
proof (induction ops rule: rev_induct)
  case Nil
  show ?case
    by (simp add: bf_run_def bf_stored_def VectorBatchInserter_new_def)
next
  case (snoc x ops)
  then show ?case
    by (cases x)
      (auto simp: bf_run_def bf_stored_def bf_add_def bf_add_batch_def bf_clear_def
        fold_append_rows list_ex_iff)
qed

lemma bf_inv_run: "bf_inv (bf_run d ops)"
proof -
  have "length (concat (bf_stored d ops)) = length (bf_stored d ops) * d"
    using bf_run_stored [of d ops] by (intro length_concat_rows) simp
  then show ?thesis
    using bf_run_stored [of d ops] by (simp add: bf_inv_def)
qed

lemma bf_scan_eq:
  assumes "n * dimensions_v s \<le> length (data_v s)"
  shows "bf_scan s query n =
     Inr (map (\<lambda>i. (i, l2_distance_simd query (drop (i * dimensions_v s) (data_v s)) (dimensions_v s)))
            [0..<n])"
  using assms
proof (induction n)
  case 0
  show ?case by simp
next
  case (Suc n)
  have "n * dimensions_v s \<le> length (data_v s)"
    using Suc.prems by simp
  with Suc show ?case
    by (simp add: row_ptr_def)
qed






lemma l2_row_eq_bf_dist:
  assumes "(i + 1) * dimensions_v s \<le> length (data_v s)"
  shows "l2_distance_simd query (drop (i * dimensions_v s) (data_v s)) (dimensions_v s)
     = bf_dist s query i"
proof -
  have "drop (i * dimensions_v s) (data_v s) ! j = data_v s ! (i * dimensions_v s + j)"
    if "j < dimensions_v s" for j
    using that assms by (intro nth_drop) simp
  then show ?thesis
    by (simp add: l2_distance_simd_sum bf_dist_def)
qed

lemma bf_scan_dist:
  assumes "bf_inv s"
  shows "bf_scan s query (num_vectors_v s) =
     Inr (map (\<lambda>i. (i, bf_dist s query i)) [0..<num_vectors_v s])"
proof -
  have len: "num_vectors_v s * dimensions_v s = length (data_v s)"
    using assms by (simp add: bf_inv_def)
  have "(i + 1) * dimensions_v s \<le> length (data_v s)" if "i < num_vectors_v s" for i
  proof -
    have "(i + 1) * dimensions_v s \<le> num_vectors_v s * dimensions_v s"
      using that by (intro mult_le_mono1) simp
    then show ?thesis using len by simp
  qed
  then have "map (\<lambda>i. (i, l2_distance_simd query (drop (i * dimensions_v s) (data_v s))
                 (dimensions_v s))) [0..<num_vectors_v s]
      = map (\<lambda>i. (i, bf_dist s query i)) [0..<num_vectors_v s]"
    by (simp add: l2_row_eq_bf_dist)
  then show ?thesis
    using bf_scan_eq [of "num_vectors_v s" s query] len by simp
qed


section \<open>The heap-select partial sort meets the contract\<close>

text \<open>
  The heap model of \<^verbatim>\<open>std::partial_sort\<close> is shown to satisfy \<open>partial_sort_spec\<close>: sifting
  up and down keeps the heap order, \<^verbatim>\<open>__heap_select\<close> leaves the \<open>middle\<close> smallest elements
  in the heap, and \<^verbatim>\<open>__sort_heap\<close> puts them in ascending order.
\<close>

subsection \<open>Positions in the implicit tree\<close>














subsection \<open>Sifting up: \<^verbatim>\<open>__push_heap\<close>\<close>



subsection \<open>Sifting down: \<^verbatim>\<open>__adjust_heap\<close>\<close>




subsection \<open>Building a heap and popping its root\<close>










subsection \<open>Selection and the final sort\<close>



subsection \<open>The contract\<close>





section \<open>Properties of the search on one layer\<close>

declare search_loop.simps [simp del]

lemma set_pq_push: "set (pq_push cmp x q) = insert x (set q)"
  by (induction q) auto

lemma pq_push_cand_less_sorted:
  "sorted (rev (map distance q)) \<Longrightarrow> sorted (rev (map distance (pq_push cand_less x q)))"
proof (induction q)
  case Nil
  then show ?case by simp
next
  case (Cons y ys)
  then show ?case
    by (auto simp: sorted_append set_pq_push cand_less_def)
qed

lemma pq_push_cand_greater_sorted:
  "sorted (map distance q) \<Longrightarrow> sorted (map distance (pq_push cand_greater x q))"
proof (induction q)
  case Nil
  then show ?case by simp
next
  case (Cons y ys)
  then show ?case
    by (auto simp: set_pq_push cand_greater_def)
qed

lemma distinct_pq_push:
  "distinct (map id_c (pq_push cmp x q)) \<longleftrightarrow> id_c x \<notin> id_c ` set q \<and> distinct (map id_c q)"
  by (induction q) (auto simp: set_pq_push)

lemma sorted_rev_tl: "sorted (rev (map distance q)) \<Longrightarrow> sorted (rev (map distance (tl q)))"
  by (cases q) (simp_all add: sorted_append)

lemma distance_to_query_eq:
  assumes "dimensions_h s \<le> length query" and "row_ok s i"
  shows "distance_to_query s query i = Inr (hnsw_dist s query i)"
proof -
  have "drop (i * dimensions_h s) (data_h s) ! j = data_h s ! (i * dimensions_h s + j)"
    if "j < dimensions_h s" for j
    using that assms(2) by (intro nth_drop) (simp add: row_ok_def)
  then have "l2_distance_simd query (drop (i * dimensions_h s) (data_h s)) (dimensions_h s)
      = hnsw_dist s query i"
    by (simp add: l2_distance_simd_sum hnsw_dist_def)
  with assms show ?thesis
    by (simp add: distance_to_query_def row_ptr_def row_ok_def)
qed

text \<open>One step of the neighbour loop: pushing a newly visited id.\<close>

lemma loop_inv_push:
  assumes inv: "loop_inv s query ef A visited candidates W"
    and n: "n \<in> A" "n \<notin> visited"
    and d: "d = hnsw_dist s query n"
  shows "loop_inv s query ef A (insert n visited)
           (pq_push cand_greater \<lparr>id_c = n, distance = d\<rparr> candidates)
           (let W' = pq_push cand_less \<lparr>id_c = n, distance = d\<rparr> W
            in if length W' > ef then tl W' else W')"
proof -
  define x where "x = \<lparr>id_c = n, distance = d\<rparr>"
  define W1 where "W1 = pq_push cand_less x W"
  define W2 where "W2 = (if length W1 > ef then tl W1 else W1)"
  have fresh: "n \<notin> id_c ` set W"
    using inv n(2) unfolding loop_inv_def by auto
  have W1: "set W1 = insert x (set W)" "length W1 = Suc (length W)"
    "sorted (rev (map distance W1))" "distinct (map id_c W1)"
    using inv fresh unfolding W1_def loop_inv_def
    by (simp_all add: set_pq_push length_pq_push pq_push_cand_less_sorted distinct_pq_push x_def)
  have W_ne: "W \<noteq> []" and W_len: "length W \<le> max ef 1"
    using inv unfolding loop_inv_def by simp_all
  have sub: "set W2 \<subseteq> insert x (set W)"
    using W1(1) unfolding W2_def by (cases W1) auto
  have ne: "W2 \<noteq> []"
    using W1(2) W_ne unfolding W2_def by (cases W1; cases "tl W1"; cases W) auto
  have len: "length W2 \<le> max ef 1"
    using W1(2) W_len unfolding W2_def by auto
  have srt: "sorted (rev (map distance W2))"
    using W1(3) unfolding W2_def by (auto intro: sorted_rev_tl)
  have dst: "distinct (map id_c W2)"
    using W1(4) unfolding W2_def by (simp add: distinct_tl map_tl)
  have mem: "\<forall>c \<in> set (pq_push cand_greater x candidates) \<union> set W2.
        id_c c \<in> A \<and> id_c c \<in> insert n visited \<and> distance c = hnsw_dist s query (id_c c)"
    using inv sub n(1) d unfolding loop_inv_def set_pq_push x_def by auto
  have "sorted (map distance (pq_push cand_greater x candidates))"
    using inv pq_push_cand_greater_sorted unfolding loop_inv_def by simp
  with mem ne len srt dst
  have "loop_inv s query ef A (insert n visited) (pq_push cand_greater x candidates) W2"
    unfolding loop_inv_def by simp
  then show ?thesis
    unfolding W2_def W1_def x_def by (simp add: Let_def)
qed

lemma loop_inv_skip:
  assumes "loop_inv s query ef A visited candidates W"
  shows "loop_inv s query ef A (insert n visited) candidates W"
  using assms unfolding loop_inv_def by auto

lemma visit_neighbors_inv:
  assumes q: "dimensions_h s \<le> length query"
    and closed: "closed_at s layer A"
  shows "set ns \<subseteq> A \<Longrightarrow> loop_inv s query ef A visited candidates W \<Longrightarrow>
     \<exists>visited' candidates' W'.
        visit_neighbors s query ef ns (visited, candidates, W) = Inr (visited', candidates', W') \<and>
        loop_inv s query ef A visited' candidates' W'"
proof (induction ns arbitrary: visited candidates W)
  case Nil
  then show ?case by simp
next
  case (Cons n ns)
  have nA: "n \<in> A" and sub: "set ns \<subseteq> A"
    using Cons.prems(1) by simp_all
  have d: "distance_to_query s query n = Inr (hnsw_dist s query n)"
    using q closed nA by (intro distance_to_query_eq) (auto simp: closed_at_def)
  obtain w ws where W: "W = w # ws"
    using Cons.prems(2) unfolding loop_inv_def by (cases W) auto
  show ?case
  proof (cases "n \<in> visited")
    case True
    with Cons.IH [OF sub Cons.prems(2)] show ?thesis
      by simp
  next
    case False
    show ?thesis
    proof (cases "hnsw_dist s query n < distance w \<or> length W < ef")
      case True
      from loop_inv_push [OF Cons.prems(2) nA False refl]
      have "\<exists>visited' candidates' W'.
        visit_neighbors s query ef ns
          (insert n visited,
           pq_push cand_greater \<lparr>id_c = n, distance = hnsw_dist s query n\<rparr> candidates,
           (let W' = pq_push cand_less \<lparr>id_c = n, distance = hnsw_dist s query n\<rparr> W
            in if length W' > ef then tl W' else W'))
          = Inr (visited', candidates', W') \<and>
        loop_inv s query ef A visited' candidates' W'"
        by (rule Cons.IH [OF sub])
      with False d W True show ?thesis
        by (simp del: pq_push.simps)
    next
      case nopush: False
      from Cons.IH [OF sub loop_inv_skip [OF Cons.prems(2)]]
      have "\<exists>visited' candidates' W'.
        visit_neighbors s query ef ns (insert n visited, candidates, W)
          = Inr (visited', candidates', W') \<and>
        loop_inv s query ef A visited' candidates' W'" .
      with False d W nopush show ?thesis
        by simp
    qed
  qed
qed

lemma search_loop_result:
  "dimensions_h s \<le> length query \<Longrightarrow> closed_at s layer A \<Longrightarrow>
   loop_inv s query ef A visited candidates W \<Longrightarrow>
     \<exists>res. search_loop s query ef layer visited candidates W = Inr res \<and>
           (\<exists>visited' candidates'. loop_inv s query ef A visited' candidates' res)"
proof (induction s query ef layer visited candidates W rule: search_loop.induct)
  case (1 s query ef layer visited candidates W)
  note q = "1.prems"(1) and closed = "1.prems"(2) and inv = "1.prems"(3)
  show ?case
  proof (cases candidates)
    case Nil
    with inv show ?thesis
      by (subst search_loop.simps) auto
  next
    case (Cons c rest)
    obtain w ws where W: "W = w # ws"
      using inv unfolding loop_inv_def by (cases W) auto
    show ?thesis
    proof (cases "distance c > distance w")
      case True
      with Cons W inv show ?thesis
        by (subst search_loop.simps) auto
    next
      case False
      have cA: "id_c c \<in> A"
        using inv Cons unfolding loop_inv_def by simp
      then have hl: "has_layer s (id_c c) layer" and sub: "set (nbrs s (id_c c) layer) \<subseteq> A"
        using closed unfolding closed_at_def by auto
      have inv_rest: "loop_inv s query ef A visited rest W"
        using inv Cons unfolding loop_inv_def by auto
      from visit_neighbors_inv [OF q closed sub inv_rest]
      obtain visited' candidates' W' where
        v: "visit_neighbors s query ef (nbrs s (id_c c) layer) (visited, rest, W)
              = Inr (visited', candidates', W')"
        and inv': "loop_inv s query ef A visited' candidates' W'"
        by blast
      have "\<exists>res. search_loop s query ef layer visited' candidates' W' = Inr res \<and>
           (\<exists>visited' candidates'. loop_inv s query ef A visited' candidates' res)"
        using "1.IH" [OF Cons W False _ v refl refl q closed inv'] hl by simp
      with Cons W False hl v show ?thesis
        by (subst search_loop.simps) simp
    qed
  qed
qed

lemma search_layer_result:
  assumes q: "dimensions_h s \<le> length query"
    and closed: "closed_at s layer A"
    and entry: "entry_id \<in> A"
  shows "\<exists>res. search_layer s query entry_id ef layer = Inr res \<and>
           res \<noteq> [] \<and> length res \<le> max ef 1 \<and>
           sorted (map distance res) \<and> distinct (map id_c res) \<and>
           (\<forall>c \<in> set res. id_c c \<in> A \<and> distance c = hnsw_dist s query (id_c c))"
proof -
  define e where "e = \<lparr>id_c = entry_id, distance = hnsw_dist s query entry_id\<rparr>"
  have d: "distance_to_query s query entry_id = Inr (hnsw_dist s query entry_id)"
    using q closed entry by (intro distance_to_query_eq) (auto simp: closed_at_def)
  have "loop_inv s query ef A {entry_id} [e] [e]"
    using entry unfolding loop_inv_def e_def by simp
  from search_loop_result [OF q closed this]
  obtain W visited' candidates' where
    W: "search_loop s query ef layer {entry_id} [e] [e] = Inr W"
    and inv: "loop_inv s query ef A visited' candidates' W"
    by blast
  have res: "search_layer s query entry_id ef layer = Inr (rev W)"
    using d W unfolding search_layer_def e_def by simp
  have "sorted (map distance (rev W))"
    using inv unfolding loop_inv_def rev_map by simp
  moreover have "distinct (rev (map id_c W))"
    using inv unfolding loop_inv_def by simp
  then have "distinct (map id_c (rev W))"
    unfolding rev_map .
  ultimately have "sorted (map distance (rev W))" "distinct (map id_c (rev W))"
    by simp_all
  with res inv show ?thesis
    unfolding loop_inv_def by auto
qed

text \<open>
  The entry node has to have the layer: otherwise the first read of
  \<^verbatim>\<open>nodes_[c.id].neighbors[layer]\<close> is outside the vector.
\<close>

lemma search_layer_missing_layer:
  assumes "dimensions_h s \<le> length query" and "row_ok s entry_id"
    and "\<not> has_layer s entry_id layer"
  shows "search_layer s query entry_id ef layer = Inl OutOfBounds"
proof -
  have "distance_to_query s query entry_id = Inr (hnsw_dist s query entry_id)"
    using assms(1,2) by (rule distance_to_query_eq)
  moreover have "search_loop s query ef layer {entry_id}
      [\<lparr>id_c = entry_id, distance = hnsw_dist s query entry_id\<rparr>]
      [\<lparr>id_c = entry_id, distance = hnsw_dist s query entry_id\<rparr>] = Inl OutOfBounds"
    using assms(3) by (subst search_loop.simps) simp
  ultimately show ?thesis
    by (simp add: search_layer_def)
qed

section \<open>Properties of navigation and linking\<close>

lemma has_layer_mono: "has_layer s u l \<Longrightarrow> l' \<le> l \<Longrightarrow> has_layer s u l'"
  by (simp add: has_layer_def)

lemma descend_result:
  "dimensions_h s \<le> length query \<Longrightarrow>
   (\<forall>l. closed_at s l (A l)) \<Longrightarrow> (\<forall>l. A (Suc l) \<subseteq> A l) \<Longrightarrow> cur \<in> A lc \<Longrightarrow>
   \<exists>c'. descend s query cur lc lo = Inr c' \<and> c' \<in> A (min lc lo)"
proof (induction s query cur lc lo rule: descend.induct)
  case (1 s query cur lc lo)
  show ?case
  proof (cases "lc > lo")
    case False
    with "1.prems"(4) show ?thesis
      by (subst descend.simps) (simp add: min_def)
  next
    case True
    from search_layer_result [OF "1.prems"(1) _ "1.prems"(4), of lc 1] "1.prems"(2)
    obtain nearest where n: "search_layer s query cur 1 lc = Inr nearest"
      and ne: "nearest \<noteq> []" and mem: "\<forall>c \<in> set nearest. id_c c \<in> A lc"
      by blast
    define cur' where "cur' = (if nearest \<noteq> [] then id_c (nearest ! 0) else cur)"
    have "cur' \<in> A lc"
      using ne mem unfolding cur'_def by (cases nearest) auto
    moreover have "A lc \<subseteq> A (lc - 1)"
      using True "1.prems"(3) by (cases lc) auto
    ultimately have c': "cur' \<in> A (lc - 1)"
      by blast
    from "1.IH" [OF True n "1.prems"(1,2,3)] c'
    obtain c'' where "descend s query cur' (lc - 1) lo = Inr c''" and "c'' \<in> A (min (lc - 1) lo)"
      unfolding cur'_def by blast
    moreover have "min (lc - 1) lo = min lc lo"
      using True by simp
    ultimately show ?thesis
      using True n unfolding cur'_def by (subst descend.simps) simp
  qed
qed

subsection \<open>Writing one neighbour list\<close>

lemma has_layer_set_nbrs [simp]: "has_layer (set_nbrs s u lc ids) u' l = has_layer s u' l"
  by (cases "u = u'") (auto simp: has_layer_def set_nbrs_def nth_list_update)

lemma nbrs_set_nbrs:
  assumes "has_layer s u lc"
  shows "nbrs (set_nbrs s u lc ids) u' l = (if u' = u \<and> l = lc then ids else nbrs s u' l)"
  using assms by (auto simp: has_layer_def set_nbrs_def nbrs_def nth_list_update)

lemma row_ok_set_nbrs [simp]: "row_ok (set_nbrs s u lc ids) i = row_ok s i"
  by (simp add: row_ok_def set_nbrs_def)

lemma set_nbrs_same:
  assumes "has_layer s u lc"
  shows "set_nbrs s u lc (nbrs s u lc) = s"
  using assms by (simp add: set_nbrs_def nbrs_def has_layer_def)

lemma has_layer_push_neighbor [simp]: "has_layer (push_neighbor s u lc v) u' l = has_layer s u' l"
  by (simp add: push_neighbor_def)

lemma nbrs_push_neighbor:
  assumes "has_layer s u lc"
  shows "nbrs (push_neighbor s u lc v) u' l
     = (if u' = u \<and> l = lc then nbrs s u lc @ [v] else nbrs s u' l)"
  using assms by (simp add: push_neighbor_def nbrs_set_nbrs)

lemma row_ok_push_neighbor [simp]: "row_ok (push_neighbor s u lc v) i = row_ok s i"
  by (simp add: push_neighbor_def)

subsection \<open>Pruning\<close>

lemma distance_between_defined:
  assumes "row_ok s i" and "row_ok s j"
  shows "\<exists>d. distance_between s i j = Inr d"
  using assms by (simp add: distance_between_def row_ptr_def row_ok_def)

lemma prune_distances_ids:
  assumes "row_ok s u"
  shows "\<forall>v \<in> set ns. row_ok s v \<Longrightarrow> \<exists>cs. prune_distances s u ns = Inr cs \<and> map id_c cs = ns"
proof (induction ns)
  case Nil
  then show ?case by simp
next
  case (Cons n ns)
  then obtain cs where "prune_distances s u ns = Inr cs" and "map id_c cs = ns"
    by auto
  moreover obtain d where "distance_between s u n = Inr d"
    using distance_between_defined [OF assms, of n] Cons.prems by auto
  ultimately show ?case
    by simp
qed

lemma prune_connections_result:
  assumes hl: "has_layer s u lc" and rows: "row_ok s u" "\<forall>v \<in> set (nbrs s u lc). row_ok s v"
  shows "\<exists>ids. prune_connections s u lc M = Inr (set_nbrs s u lc ids) \<and>
           set ids \<subseteq> set (nbrs s u lc) \<and> length ids = min M (length (nbrs s u lc))"
proof (cases "length (nbrs s u lc) \<le> M")
  case True
  then have "prune_connections s u lc M = Inr (set_nbrs s u lc (nbrs s u lc))"
    using hl by (simp add: prune_connections_def set_nbrs_same)
  with True show ?thesis
    by (intro exI [of _ "nbrs s u lc"]) simp
next
  case False
  from prune_distances_ids [OF rows] obtain cs where
    cs: "prune_distances s u (nbrs s u lc) = Inr cs" and ids: "map id_c cs = nbrs s u lc"
    by blast
  define ids' where "ids' = map id_c (take M (std_sort cs))"
  have "set ids' \<subseteq> id_c ` set (std_sort cs)"
    unfolding ids'_def by (auto dest: in_set_takeD)
  also have "\<dots> = set (nbrs s u lc)"
    using ids by (simp add: std_sort_def flip: set_map)
  finally have sub: "set ids' \<subseteq> set (nbrs s u lc)" .
  have "length cs = length (nbrs s u lc)"
    using ids by (metis length_map)
  then have len: "length ids' = min M (length (nbrs s u lc))"
    unfolding ids'_def by (simp add: std_sort_def min_def)
  have "prune_connections s u lc M = Inr (set_nbrs s u lc ids')"
    using False hl cs unfolding ids'_def by (simp add: prune_connections_def)
  with sub len show ?thesis
    by blast
qed

subsection \<open>The link loop\<close>

lemma linked_refl: "linked new_id lc M s s"
  by (auto simp: linked_def)

lemma linked_trans:
  assumes "linked new_id lc M s s1" and "linked new_id lc M s1 s2"
  shows "linked new_id lc M s s2"
proof -
  have "s2 = s\<lparr>nodes_h := nodes_h s2\<rparr>"
  proof -
    have "s2 = s1\<lparr>nodes_h := nodes_h s2\<rparr>" and "s1 = s\<lparr>nodes_h := nodes_h s1\<rparr>"
      using assms unfolding linked_def by blast+
    then have "s2 = (s\<lparr>nodes_h := nodes_h s1\<rparr>)\<lparr>nodes_h := nodes_h s2\<rparr>"
      by simp
    then show ?thesis by simp
  qed
  moreover have "\<forall>u l. has_layer s2 u l = has_layer s u l"
    using assms unfolding linked_def by simp
  moreover have "length (nodes_h s2) = length (nodes_h s)"
    using assms unfolding linked_def by simp
  moreover have "\<forall>u l. l \<noteq> lc \<longrightarrow> nbrs s2 u l = nbrs s u l"
    using assms unfolding linked_def by simp
  moreover have "set (nbrs s2 u lc) \<subseteq> insert new_id (set (nbrs s u lc)) \<and>
        length (nbrs s2 u lc) \<le> max M (length (nbrs s u lc))" if "u \<noteq> new_id" for u
  proof -
    have a: "set (nbrs s1 u lc) \<subseteq> insert new_id (set (nbrs s u lc))"
      "length (nbrs s1 u lc) \<le> max M (length (nbrs s u lc))"
      using assms(1) that unfolding linked_def by blast+
    have b: "set (nbrs s2 u lc) \<subseteq> insert new_id (set (nbrs s1 u lc))"
      "length (nbrs s2 u lc) \<le> max M (length (nbrs s1 u lc))"
      using assms(2) that unfolding linked_def by blast+
    from a(1) b(1) have "set (nbrs s2 u lc) \<subseteq> insert new_id (set (nbrs s u lc))"
      by blast
    moreover from a(2) b(2) have "length (nbrs s2 u lc) \<le> max M (length (nbrs s u lc))"
      by simp
    ultimately show ?thesis by simp
  qed
  ultimately show ?thesis
    unfolding linked_def by blast
qed

lemma linked_row_ok:
  assumes "linked new_id lc M s s'"
  shows "row_ok s' i = row_ok s i"
proof -
  have "s' = s\<lparr>nodes_h := nodes_h s'\<rparr>"
    using assms unfolding linked_def by blast
  then have "dimensions_h s' = dimensions_h s" "data_h s' = data_h s"
    by (metis HNSWIndex.select_convs(1) HNSWIndex.surjective HNSWIndex.update_convs(9),
        metis HNSWIndex.select_convs(8) HNSWIndex.surjective HNSWIndex.update_convs(9))
  then show ?thesis
    by (simp add: row_ok_def)
qed

text \<open>One round of the link loop.\<close>

lemma link_one:
  assumes hl: "has_layer s new_id lc"
    and rows: "\<forall>u l. has_layer s u l \<longrightarrow> row_ok s u"
    and links: "links_ok s"
    and nb: "has_layer s (id_c nb) lc" "id_c nb \<noteq> new_id"
  shows "\<exists>s3. (\<forall>rest. link_neighbors s new_id lc M (nb # rest) = link_neighbors s3 new_id lc M rest) \<and>
           linked new_id lc M s s3 \<and>
           nbrs s3 new_id lc = nbrs s new_id lc @ [id_c nb] \<and>
           links_ok s3"
proof -
  define s1 where "s1 = push_neighbor s new_id lc (id_c nb)"
  define s2 where "s2 = push_neighbor s1 (id_c nb) lc new_id"
  have hl1: "has_layer s1 u l = has_layer s u l" for u l
    by (simp add: s1_def)
  have hl2: "has_layer s2 u l = has_layer s u l" for u l
    by (simp add: s2_def s1_def)
  have n1: "nbrs s1 u l = (if u = new_id \<and> l = lc then nbrs s new_id lc @ [id_c nb] else nbrs s u l)"
    for u l
    unfolding s1_def using hl by (simp add: nbrs_push_neighbor)
  have n2: "nbrs s2 u l = (if u = id_c nb \<and> l = lc then nbrs s (id_c nb) lc @ [new_id]
                           else if u = new_id \<and> l = lc then nbrs s new_id lc @ [id_c nb]
                           else nbrs s u l)" for u l
    unfolding s2_def using nb hl1 by (simp add: nbrs_push_neighbor n1)
  have frame2: "s2 = s\<lparr>nodes_h := nodes_h s2\<rparr>"
    unfolding s2_def s1_def push_neighbor_def set_nbrs_def by simp
  have row2: "row_ok s2 i = row_ok s i" for i
    by (simp add: s2_def s1_def)
  have links2: "links_ok s2"
    unfolding links_ok_def
  proof (intro allI impI ballI)
    fix u l v
    assume "has_layer s2 u l" and v: "v \<in> set (nbrs s2 u l)"
    then have u: "has_layer s u l"
      by (simp add: hl2)
    from v have "v \<in> set (nbrs s u l) \<or> (l = lc \<and> (v = new_id \<or> v = id_c nb))"
      unfolding n2 by (auto split: if_splits)
    then have "has_layer s v l"
      using links u hl nb(1) unfolding links_ok_def by blast
    then show "has_layer s2 v l"
      by (simp add: hl2)
  qed
  have len2: "length (nodes_h s2) = length (nodes_h s)"
    unfolding s2_def s1_def push_neighbor_def set_nbrs_def by simp
  show ?thesis
  proof (cases "length (nbrs s2 (id_c nb) lc) > M")
    case False
    then have "length (nbrs s (id_c nb) lc) < M"
      by (simp add: n2)
    then have "linked new_id lc M s s2"
      unfolding linked_def using frame2 len2 hl2 n2 by auto
    moreover have "\<forall>rest. link_neighbors s new_id lc M (nb # rest) = link_neighbors s2 new_id lc M rest"
      using False hl nb(1) hl1 unfolding s2_def s1_def by (simp add: Let_def)
    moreover have "nbrs s2 new_id lc = nbrs s new_id lc @ [id_c nb]"
      using nb(2) by (simp add: n2)
    ultimately show ?thesis
      using links2 by blast
  next
    case True
    have "has_layer s2 (id_c nb) lc"
      using nb(1) by (simp add: hl2)
    moreover have "row_ok s2 (id_c nb)"
      using rows nb(1) by (auto simp: row2)
    moreover have "\<forall>v \<in> set (nbrs s2 (id_c nb) lc). row_ok s2 v"
      using links2 rows \<open>has_layer s2 (id_c nb) lc\<close> unfolding links_ok_def row2 hl2 by blast
    ultimately obtain ids where
      pr: "prune_connections s2 (id_c nb) lc M = Inr (set_nbrs s2 (id_c nb) lc ids)"
      and sub: "set ids \<subseteq> set (nbrs s2 (id_c nb) lc)"
      and len: "length ids = min M (length (nbrs s2 (id_c nb) lc))"
      using prune_connections_result [of s2 "id_c nb" lc M] by blast
    define s3 where "s3 = set_nbrs s2 (id_c nb) lc ids"
    have hl3: "has_layer s3 u l = has_layer s u l" for u l
      by (simp add: s3_def hl2)
    have n3: "nbrs s3 u l = (if u = id_c nb \<and> l = lc then ids else nbrs s2 u l)" for u l
      unfolding s3_def using \<open>has_layer s2 (id_c nb) lc\<close> by (simp add: nbrs_set_nbrs)
    have frame3: "s3 = s\<lparr>nodes_h := nodes_h s3\<rparr>"
    proof -
      have "s3 = s2\<lparr>nodes_h := nodes_h s3\<rparr>"
        unfolding s3_def by (simp add: set_nbrs_def)
      with frame2 have "s3 = (s\<lparr>nodes_h := nodes_h s2\<rparr>)\<lparr>nodes_h := nodes_h s3\<rparr>"
        by simp
      then show ?thesis by simp
    qed
    have len3: "length (nodes_h s3) = length (nodes_h s)"
      unfolding s3_def using len2 by (simp add: set_nbrs_def)
    have sub': "set ids \<subseteq> insert new_id (set (nbrs s (id_c nb) lc))"
      using sub by (auto simp: n2)
    have len': "length ids \<le> max M (length (nbrs s (id_c nb) lc))"
      using len by simp
    have "linked new_id lc M s s3"
      unfolding linked_def using frame3 len3 hl3 sub' len' nb(2) by (auto simp: n3 n2)
    moreover have "\<forall>rest. link_neighbors s new_id lc M (nb # rest) = link_neighbors s3 new_id lc M rest"
      using True hl nb(1) hl1 pr unfolding s3_def s2_def s1_def by (simp add: Let_def)
    moreover have "nbrs s3 new_id lc = nbrs s new_id lc @ [id_c nb]"
      using nb(2) by (simp add: n3 n2)
    moreover have "links_ok s3"
      unfolding links_ok_def
    proof (intro allI impI ballI)
      fix u l v
      assume "has_layer s3 u l" and v: "v \<in> set (nbrs s3 u l)"
      then have u2: "has_layer s2 u l"
        by (simp add: hl3 hl2)
      from v sub have "v \<in> set (nbrs s2 u l)"
        unfolding n3 by (auto split: if_splits)
      with links2 u2 have "has_layer s2 v l"
        unfolding links_ok_def by blast
      then show "has_layer s3 v l"
        by (simp add: hl3 hl2)
    qed
    ultimately show ?thesis
      by blast
  qed
qed

lemma link_neighbors_result:
  "has_layer s new_id lc \<Longrightarrow> (\<forall>u l. has_layer s u l \<longrightarrow> row_ok s u) \<Longrightarrow> links_ok s \<Longrightarrow>
   (\<forall>c \<in> set nbs. has_layer s (id_c c) lc \<and> id_c c \<noteq> new_id) \<Longrightarrow>
   \<exists>s'. link_neighbors s new_id lc M nbs = Inr s' \<and>
        linked new_id lc M s s' \<and>
        nbrs s' new_id lc = nbrs s new_id lc @ map id_c nbs \<and>
        links_ok s'"
proof (induction nbs arbitrary: s)
  case Nil
  then show ?case
    by (simp add: linked_refl)
next
  case (Cons nb rest)
  from link_one [OF Cons.prems(1,2,3), of nb M] Cons.prems(4)
  obtain s3 where
    eq: "link_neighbors s new_id lc M (nb # rest) = link_neighbors s3 new_id lc M rest"
    and l3: "linked new_id lc M s s3"
    and n3: "nbrs s3 new_id lc = nbrs s new_id lc @ [id_c nb]"
    and links3: "links_ok s3"
    by auto
  have hl3: "has_layer s3 u l = has_layer s u l" for u l
    using l3 unfolding linked_def by blast
  have "has_layer s3 new_id lc"
    using Cons.prems(1) by (simp add: hl3)
  moreover have "\<forall>u l. has_layer s3 u l \<longrightarrow> row_ok s3 u"
    using Cons.prems(2) by (simp add: hl3 linked_row_ok [OF l3])
  moreover have "\<forall>c \<in> set rest. has_layer s3 (id_c c) lc \<and> id_c c \<noteq> new_id"
    using Cons.prems(4) by (simp add: hl3)
  ultimately obtain s' where
    r: "link_neighbors s3 new_id lc M rest = Inr s'"
    and l': "linked new_id lc M s3 s'"
    and n': "nbrs s' new_id lc = nbrs s3 new_id lc @ map id_c rest"
    and links': "links_ok s'"
    using Cons.IH [of s3] links3 by blast
  from eq r l3 l' n3 n' links' show ?case
    by (auto intro: linked_trans)
qed

subsection \<open>Linking one layer and all layers\<close>

lemma linked_fields:
  assumes "linked new_id lc M s s'"
  shows "M_h s' = M_h s" "M_max_h s' = M_max_h s"
proof -
  have "s' = s\<lparr>nodes_h := nodes_h s'\<rparr>"
    using assms unfolding linked_def by blast
  then show "M_h s' = M_h s" "M_max_h s' = M_max_h s"
    by (metis HNSWIndex.select_convs(4) HNSWIndex.surjective HNSWIndex.update_convs(9),
        metis HNSWIndex.select_convs(5) HNSWIndex.surjective HNSWIndex.update_convs(9))
qed

lemma insert_layer_result:
  assumes q: "dimensions_h s \<le> length vector"
    and ins: "inserting s new_id lc"
    and cur: "has_layer s cur lc" "cur \<noteq> new_id"
  shows "\<exists>s' cur'. insert_layer s vector new_id cur lc = Inr (s', cur') \<and>
           linked new_id lc (if lc = 0 then M_max_h s else M_h s) s s' \<and>
           links_ok s' \<and> degree_ok s' \<and> has_layer s' cur' lc \<and> cur' \<noteq> new_id"
proof -
  define A where "A = {u. has_layer s u lc \<and> u \<noteq> new_id}"
  define M where "M = (if lc = 0 then M_max_h s else M_h s)"
  have rows: "\<forall>u l. has_layer s u l \<longrightarrow> row_ok s u" and links: "links_ok s"
    and deg: "degree_ok s" and hl: "has_layer s new_id lc"
    and empty: "nbrs s new_id lc = []"
    and notin: "\<forall>u. has_layer s u lc \<longrightarrow> new_id \<notin> set (nbrs s u lc)"
    using ins unfolding inserting_def by auto
  have closed: "closed_at s lc A"
    unfolding closed_at_def A_def using rows links notin unfolding links_ok_def by auto
  have "cur \<in> A"
    using cur by (simp add: A_def)
  from search_layer_result [OF q closed this, of "ef_construction_h s"]
  obtain candidates where
    sl: "search_layer s vector cur (ef_construction_h s) lc = Inr candidates"
    and ne: "candidates \<noteq> []" and mem: "\<forall>c \<in> set candidates. id_c c \<in> A"
    by blast
  define nbs where "nbs = take M candidates"
  have nbs_mem: "\<forall>c \<in> set nbs. has_layer s (id_c c) lc \<and> id_c c \<noteq> new_id"
    using mem unfolding nbs_def A_def by (auto dest: in_set_takeD)
  from link_neighbors_result [OF hl rows links nbs_mem, of M]
  obtain s' where
    ln: "link_neighbors s new_id lc M nbs = Inr s'"
    and l: "linked new_id lc M s s'"
    and n': "nbrs s' new_id lc = nbrs s new_id lc @ map id_c nbs"
    and links': "links_ok s'"
    by blast
  define cur' where "cur' = (if nbs \<noteq> [] then id_c (nbs ! 0) else cur)"
  have res: "insert_layer s vector new_id cur lc = Inr (s', cur')"
    using sl ln unfolding insert_layer_def cur'_def nbs_def M_def by (simp add: Let_def)
  have hl': "has_layer s' u l = has_layer s u l" for u l
    using l unfolding linked_def by blast
  have "has_layer s cur' lc \<and> cur' \<noteq> new_id"
    using nbs_mem cur unfolding cur'_def by (cases nbs) auto
  then have cur'_ok: "has_layer s' cur' lc \<and> cur' \<noteq> new_id"
    by (simp add: hl')
  have "degree_ok s'"
    unfolding degree_ok_def
  proof (intro allI impI)
    fix u l
    assume "has_layer s' u l"
    then have u: "has_layer s u l"
      by (simp add: hl')
    then have old: "length (nbrs s u l) \<le> (if l = 0 then M_max_h s else M_h s)"
      using deg unfolding degree_ok_def by blast
    have "length (nbrs s' u l) \<le> (if l = 0 then M_max_h s else M_h s)"
    proof (cases "l = lc")
      case False
      then have "nbrs s' u l = nbrs s u l"
        using l unfolding linked_def by blast
      with old show ?thesis by simp
    next
      case True
      show ?thesis
      proof (cases "u = new_id")
        case True
        with \<open>l = lc\<close> n' empty have "length (nbrs s' u l) = length nbs"
          by simp
        also have "\<dots> \<le> M"
          by (simp add: nbs_def)
        finally show ?thesis
          using \<open>l = lc\<close> by (simp add: M_def)
      next
        case False
        then have "length (nbrs s' u lc) \<le> max M (length (nbrs s u lc))"
          using l unfolding linked_def by blast
        with old \<open>l = lc\<close> show ?thesis
          by (simp add: M_def split: if_splits)
      qed
    qed
    then show "length (nbrs s' u l) \<le> (if l = 0 then M_max_h s' else M_h s')"
      unfolding linked_fields [OF l] .
  qed
  with res l links' cur'_ok show ?thesis
    unfolding M_def by blast
qed

lemma inserting_next:
  assumes ins: "inserting s new_id (Suc lc)"
    and l: "linked new_id (Suc lc) M s s'"
    and links': "links_ok s'" and deg': "degree_ok s'"
  shows "inserting s' new_id lc"
proof -
  have hl': "has_layer s' u l = has_layer s u l" for u l
    using l unfolding linked_def by blast
  have same: "nbrs s' u l = nbrs s u l" if "l \<le> lc" for u l
    using l that unfolding linked_def by simp
  have "\<forall>u l. has_layer s' u l \<longrightarrow> row_ok s' u"
    using ins unfolding inserting_def by (simp add: hl' linked_row_ok [OF l])
  moreover have "has_layer s' new_id lc"
    using ins unfolding inserting_def by (auto simp: hl' intro: has_layer_mono)
  moreover have "\<forall>l \<le> lc. nbrs s' new_id l = [] \<and>
      (\<forall>u. has_layer s' u l \<longrightarrow> new_id \<notin> set (nbrs s' u l))"
    using ins unfolding inserting_def by (simp add: hl' same)
  ultimately show ?thesis
    using links' deg' unfolding inserting_def by blast
qed

lemma insert_layers_result:
  "dimensions_h s \<le> length vector \<Longrightarrow> inserting s new_id lc \<Longrightarrow>
   has_layer s cur lc \<Longrightarrow> cur \<noteq> new_id \<Longrightarrow>
   \<exists>s'. insert_layers s vector new_id cur lc = Inr s' \<and>
        s' = s\<lparr>nodes_h := nodes_h s'\<rparr> \<and>
        length (nodes_h s') = length (nodes_h s) \<and>
        (\<forall>u l. has_layer s' u l = has_layer s u l) \<and>
        links_ok s' \<and> degree_ok s'"
proof (induction lc arbitrary: s cur)
  case 0
  from insert_layer_result [OF "0.prems"]
  obtain s' cur' where "insert_layer s vector new_id cur 0 = Inr (s', cur')"
    and "linked new_id 0 (M_max_h s) s s'" and "links_ok s'" and "degree_ok s'"
    by auto
  then show ?case
    unfolding linked_def by auto
next
  case (Suc lc)
  from insert_layer_result [OF Suc.prems]
  obtain s1 cur1 where
    r1: "insert_layer s vector new_id cur (Suc lc) = Inr (s1, cur1)"
    and l1: "linked new_id (Suc lc) (M_h s) s s1"
    and links1: "links_ok s1" and deg1: "degree_ok s1"
    and cur1: "has_layer s1 cur1 (Suc lc)" "cur1 \<noteq> new_id"
    by auto
  have frame1: "s1 = s\<lparr>nodes_h := nodes_h s1\<rparr>" and len1: "length (nodes_h s1) = length (nodes_h s)"
    and hl1: "\<forall>u l. has_layer s1 u l = has_layer s u l"
    using l1 unfolding linked_def by blast+
  have dim1: "dimensions_h s1 \<le> length vector"
  proof -
    have "dimensions_h s1 = dimensions_h s"
      using frame1 by (metis HNSWIndex.select_convs(1) HNSWIndex.surjective HNSWIndex.update_convs(9))
    with Suc.prems(1) show ?thesis by simp
  qed
  have ins1: "inserting s1 new_id lc"
    using inserting_next [OF Suc.prems(2) l1 links1 deg1] .
  have c1: "has_layer s1 cur1 lc"
    using cur1(1) by (rule has_layer_mono) simp
  from Suc.IH [OF dim1 ins1 c1 cur1(2)]
  obtain s' where r: "insert_layers s1 vector new_id cur1 lc = Inr s'"
    and frame': "s' = s1\<lparr>nodes_h := nodes_h s'\<rparr>"
    and len': "length (nodes_h s') = length (nodes_h s1)"
    and hl': "\<forall>u l. has_layer s' u l = has_layer s1 u l"
    and ok: "links_ok s'" "degree_ok s'"
    by blast
  have "s' = (s\<lparr>nodes_h := nodes_h s1\<rparr>)\<lparr>nodes_h := nodes_h s'\<rparr>"
    using frame' frame1 by simp
  then have "s' = s\<lparr>nodes_h := nodes_h s'\<rparr>"
    by simp
  with r1 r len' len1 hl' hl1 ok show ?case
    by simp
qed

section \<open>Insertion keeps the HNSW index well-formed\<close>

lemma has_layer_cong: "nodes_h a = nodes_h b \<Longrightarrow> has_layer a u l = has_layer b u l"
  by (simp add: has_layer_def)

lemma nbrs_cong: "nodes_h a = nodes_h b \<Longrightarrow> nbrs a u l = nbrs b u l"
  by (simp add: nbrs_def)

lemma links_ok_cong: "nodes_h a = nodes_h b \<Longrightarrow> links_ok a = links_ok b"
  unfolding links_ok_def by (simp add: has_layer_cong [of a b] nbrs_cong [of a b])

lemma degree_ok_cong:
  "nodes_h a = nodes_h b \<Longrightarrow> M_h a = M_h b \<Longrightarrow> M_max_h a = M_max_h b \<Longrightarrow>
   degree_ok a = degree_ok b"
  unfolding degree_ok_def by (simp add: has_layer_cong [of a b] nbrs_cong [of a b])

lemma hnsw_add_unfold:
  assumes "length vector = dimensions_h s"
  shows "hnsw_add L s vector =
    (let s2 = s\<lparr>rng_h := rng_h s + 1, data_h := data_h s @ vector,
                 nodes_h := nodes_h s @
                   [HNSWNode_new (num_vectors_h s) (max (L (rng_h s)) (max_layer_h s))]\<rparr>
     in if num_vectors_h s = 0 then
          (None, s2\<lparr>entry_point_h := num_vectors_h s, max_layer_h := L (rng_h s),
                    num_vectors_h := num_vectors_h s + 1\<rparr>)
        else
          (case descend s2 vector (entry_point_h s) (max_layer_h s) (L (rng_h s)) of
             Inl e \<Rightarrow> (Some e, s)
           | Inr curr_nearest \<Rightarrow>
               (case insert_layers s2 vector (num_vectors_h s) curr_nearest
                       (min (L (rng_h s)) (max_layer_h s)) of
                  Inl e \<Rightarrow> (Some e, s)
                | Inr s3 \<Rightarrow>
                    (let s4 = (if L (rng_h s) > max_layer_h s3
                               then s3\<lparr>max_layer_h := L (rng_h s),
                                       entry_point_h := num_vectors_h s\<rparr>
                               else s3)
                     in (None, s4\<lparr>num_vectors_h := num_vectors_h s4 + 1\<rparr>)))))"
  using assms
  by (auto simp: hnsw_add_def get_random_level_def Let_def split: sum.splits)

lemma hnsw_add_result:
  assumes inv: "hnsw_inv s" and len: "length vector = dimensions_h s"
  shows "\<exists>s'. hnsw_add L s vector = (None, s') \<and> hnsw_inv s' \<and>
           dimensions_h s' = dimensions_h s \<and> max_elements_h s' = max_elements_h s \<and>
           num_vectors_h s' = num_vectors_h s + 1 \<and>
           M_h s' = M_h s \<and> M_max_h s' = M_max_h s \<and>
           ef_construction_h s' = ef_construction_h s \<and> ef_search_h s' = ef_search_h s \<and>
           data_h s' = data_h s @ vector \<and> rng_h s' = rng_h s + 1"
proof -
  define n where "n = num_vectors_h s"
  define lvl where "lvl = L (rng_h s)"
  define top where "top = max lvl (max_layer_h s)"
  define s2 where "s2 = s\<lparr>rng_h := rng_h s + 1, data_h := data_h s @ vector,
                 nodes_h := nodes_h s @ [HNSWNode_new n top]\<rparr>"
  have nodes_n: "length (nodes_h s) = n" and data_n: "length (data_h s) = n * dimensions_h s"
    and links: "links_ok s" and deg: "degree_ok s"
    and entry: "0 < n \<longrightarrow> has_layer s (entry_point_h s) (max_layer_h s)"
    and mmax: "M_max_h s = 2 * M_h s"
    using inv unfolding hnsw_inv_def n_def by simp_all
  have old_lt: "u < n" if "has_layer s u l" for u l
    using that nodes_n by (simp add: has_layer_def)
  have hl2: "has_layer s2 u l \<longleftrightarrow> (if u < n then has_layer s u l else u = n \<and> l \<le> top)" for u l
    using nodes_n by (auto simp: has_layer_def s2_def nth_append HNSWNode_new_def)
  have nb2_old: "nbrs s2 u l = nbrs s u l" if "u < n" for u l
    using nodes_n that by (simp add: nbrs_def s2_def nth_append)
  have nb2_new: "nbrs s2 n l = []" if "l \<le> top" for l
    using nodes_n that by (simp add: nbrs_def s2_def nth_append HNSWNode_new_def del: replicate.simps)
  have row2: "row_ok s2 u" if "u \<le> n" for u
  proof -
    have "(u + 1) * dimensions_h s \<le> (n + 1) * dimensions_h s"
      using that by (intro mult_le_mono1) simp
    then show ?thesis
      using data_n len by (simp add: row_ok_def s2_def)
  qed
  have fields2: "dimensions_h s2 = dimensions_h s" "M_h s2 = M_h s" "M_max_h s2 = M_max_h s"
    "max_layer_h s2 = max_layer_h s" "entry_point_h s2 = entry_point_h s"
    "length (nodes_h s2) = n + 1"
    using nodes_n by (simp_all add: s2_def)
  have links2: "links_ok s2"
    unfolding links_ok_def
  proof (intro allI impI ballI)
    fix u l v
    assume u: "has_layer s2 u l" and v: "v \<in> set (nbrs s2 u l)"
    show "has_layer s2 v l"
    proof (cases "u < n")
      case True
      with u v have "has_layer s u l" "v \<in> set (nbrs s u l)"
        by (simp_all add: hl2 nb2_old)
      with links have "has_layer s v l"
        unfolding links_ok_def by blast
      then show ?thesis
        using old_lt by (simp add: hl2)
    next
      case False
      with u v show ?thesis
        by (simp add: hl2 nb2_new)
    qed
  qed
  have deg2: "degree_ok s2"
    unfolding degree_ok_def
  proof (intro allI impI)
    fix u l
    assume u: "has_layer s2 u l"
    show "length (nbrs s2 u l) \<le> (if l = 0 then M_max_h s2 else M_h s2)"
    proof (cases "u < n")
      case True
      with u have "has_layer s u l"
        by (simp add: hl2)
      with deg have "length (nbrs s u l) \<le> (if l = 0 then M_max_h s else M_h s)"
        unfolding degree_ok_def by blast
      with True show ?thesis
        unfolding fields2 by (simp only: nb2_old)
    next
      case False
      with u show ?thesis
        by (simp add: hl2 nb2_new)
    qed
  qed
  have new_notin: "n \<notin> set (nbrs s2 u l)" if "has_layer s2 u l" for u l
  proof (cases "u < n")
    case True
    with that have "has_layer s u l"
      by (simp add: hl2)
    then have "\<forall>v \<in> set (nbrs s u l). v < n"
      using links old_lt unfolding links_ok_def by blast
    with True show ?thesis
      by (auto simp: nb2_old)
  next
    case False
    with that show ?thesis
      by (simp add: hl2 nb2_new)
  qed
  show ?thesis
  proof (cases "n = 0")
    case True
    define s' where "s' = s2\<lparr>entry_point_h := n, max_layer_h := lvl, num_vectors_h := n + 1\<rparr>"
    have res: "hnsw_add L s vector = (None, s')"
      using True unfolding hnsw_add_unfold [OF len] s'_def s2_def n_def lvl_def top_def
      by (simp add: Let_def)
    have n': "nodes_h s' = nodes_h s2"
      by (simp add: s'_def)
    have "links_ok s'" "degree_ok s'"
      using links2 deg2 links_ok_cong [OF n'] degree_ok_cong [OF n'] by (simp_all add: s'_def)
    moreover have "has_layer s' (entry_point_h s') (max_layer_h s')"
      unfolding has_layer_cong [OF n'] by (simp add: s'_def hl2 top_def)
    moreover have "length (nodes_h s') = num_vectors_h s'"
      "length (data_h s') = num_vectors_h s' * dimensions_h s'"
      "M_max_h s' = 2 * M_h s'"
      using nodes_n data_n len mmax by (simp_all add: s'_def s2_def)
    ultimately have "hnsw_inv s'"
      unfolding hnsw_inv_def by simp
    with res show ?thesis
      by (simp add: s'_def s2_def n_def)
  next
    case False
    define A where "A = (\<lambda>l. {u. has_layer s2 u l \<and> u \<noteq> n})"
    have q2: "dimensions_h s2 \<le> length vector"
      using len by (simp add: fields2)
    have lt2: "u \<le> n" if "has_layer s2 u l" for u l
      using that fields2(6) by (simp add: has_layer_def)
    have closed: "\<forall>l. closed_at s2 l (A l)"
      unfolding closed_at_def A_def
      using links2 new_notin row2 lt2 unfolding links_ok_def by auto
    have anti: "\<forall>l. A (Suc l) \<subseteq> A l"
      unfolding A_def by (auto intro: has_layer_mono)
    have e_old: "has_layer s (entry_point_h s) (max_layer_h s)"
      using entry False by simp
    then have "entry_point_h s \<in> A (max_layer_h s)"
      using old_lt [OF e_old] by (simp add: A_def hl2)
    from descend_result [OF q2 closed anti this, of lvl]
    obtain cur where d: "descend s2 vector (entry_point_h s) (max_layer_h s) lvl = Inr cur"
      and cur: "cur \<in> A (min (max_layer_h s) lvl)"
      by blast
    define lc where "lc = min lvl (max_layer_h s)"
    have cur_ok: "has_layer s2 cur lc" "cur \<noteq> n"
      using cur unfolding A_def lc_def by (simp_all add: min.commute)
    have "lc \<le> top"
      by (simp add: lc_def top_def)
    then have "inserting s2 n lc"
      unfolding inserting_def using links2 deg2 row2 lt2 new_notin
      by (auto simp: hl2 nb2_new)
    from insert_layers_result [OF q2 this cur_ok]
    obtain s3 where i: "insert_layers s2 vector n cur lc = Inr s3"
      and frame3: "s3 = s2\<lparr>nodes_h := nodes_h s3\<rparr>"
      and len3: "length (nodes_h s3) = length (nodes_h s2)"
      and hl3: "\<forall>u l. has_layer s3 u l = has_layer s2 u l"
      and ok3: "links_ok s3" "degree_ok s3"
      by blast
    have fields3: "dimensions_h s3 = dimensions_h s" "M_h s3 = M_h s" "M_max_h s3 = M_max_h s"
      "max_layer_h s3 = max_layer_h s" "entry_point_h s3 = entry_point_h s"
      "max_elements_h s3 = max_elements_h s" "ef_construction_h s3 = ef_construction_h s"
      "ef_search_h s3 = ef_search_h s" "data_h s3 = data_h s @ vector" "rng_h s3 = rng_h s + 1"
      "num_vectors_h s3 = n"
      by (subst frame3, simp add: s2_def n_def)+
    define s4 where "s4 = (if lvl > max_layer_h s3
                            then s3\<lparr>max_layer_h := lvl, entry_point_h := n\<rparr> else s3)"
    define s' where "s' = s4\<lparr>num_vectors_h := num_vectors_h s4 + 1\<rparr>"
    have n4: "num_vectors_h s4 = n"
      by (simp add: s4_def fields3)
    have res: "hnsw_add L s vector = (None, s')"
      using False d i
      unfolding hnsw_add_unfold [OF len] s'_def s4_def s2_def n_def lvl_def top_def lc_def
      by (simp add: Let_def)
    have n': "nodes_h s' = nodes_h s3"
      by (simp add: s'_def s4_def)
    have "links_ok s'" "degree_ok s'"
      using ok3 links_ok_cong [OF n'] degree_ok_cong [OF n'] by (simp_all add: s'_def s4_def)
    moreover have "has_layer s' (entry_point_h s') (max_layer_h s')"
    proof (cases "lvl > max_layer_h s3")
      case True
      then have "entry_point_h s' = n" "max_layer_h s' = lvl"
        by (simp_all add: s'_def s4_def)
      then show ?thesis
        unfolding has_layer_cong [OF n'] using hl3 by (simp add: hl2 top_def)
    next
      case False
      then have "entry_point_h s' = entry_point_h s" "max_layer_h s' = max_layer_h s"
        by (simp_all add: s'_def s4_def fields3)
      then show ?thesis
        unfolding has_layer_cong [OF n'] using hl3 e_old old_lt [OF e_old] by (simp add: hl2)
    qed
    moreover have "length (nodes_h s') = num_vectors_h s'"
      using len3 fields2(6) n4 by (simp add: s'_def) (simp add: s4_def)
    moreover have "length (data_h s') = num_vectors_h s' * dimensions_h s'"
      using data_n len n4 by (simp add: s'_def) (simp add: s4_def fields3)
    moreover have "M_max_h s' = 2 * M_h s'"
      using mmax by (simp add: s'_def s4_def fields3)
    ultimately have "hnsw_inv s'"
      unfolding hnsw_inv_def by simp
    moreover have "num_vectors_h s' = num_vectors_h s + 1"
      using n4 by (simp add: s'_def n_def)
    ultimately show ?thesis
      using res by (simp add: s'_def s4_def fields3)
  qed
qed

section \<open>Operation sequences on the HNSW index\<close>

lemma hnsw_add_mismatch:
  "length vector \<noteq> dimensions_h s \<Longrightarrow> hnsw_add L s vector = (Some DimensionMismatch, s)"
  by (simp add: hnsw_add_def)

lemma hnsw_add_batch_result:
  "hnsw_inv s \<Longrightarrow>
   \<exists>s'. hnsw_add_batch L s vs =
          (if \<forall>v \<in> set vs. length v = dimensions_h s then None else Some DimensionMismatch, s') \<and>
        hnsw_inv s' \<and> dimensions_h s' = dimensions_h s \<and> M_h s' = M_h s \<and>
        num_vectors_h s' =
          num_vectors_h s + length (takeWhile (\<lambda>v. length v = dimensions_h s) vs) \<and>
        data_h s' = data_h s @ concat (takeWhile (\<lambda>v. length v = dimensions_h s) vs)"
proof (induction vs arbitrary: s)
  case Nil
  then show ?case by simp
next
  case (Cons v vs)
  show ?case
  proof (cases "length v = dimensions_h s")
    case False
    with Cons.prems show ?thesis
      by (simp add: hnsw_add_mismatch)
  next
    case True
    from hnsw_add_result [OF Cons.prems True, of L]
    obtain s1 where a: "hnsw_add L s v = (None, s1)" and inv1: "hnsw_inv s1"
      and f1: "dimensions_h s1 = dimensions_h s" "M_h s1 = M_h s"
        "num_vectors_h s1 = num_vectors_h s + 1" "data_h s1 = data_h s @ v"
      by blast
    from Cons.IH [OF inv1] obtain s' where
      b: "hnsw_add_batch L s1 vs =
          (if \<forall>v \<in> set vs. length v = dimensions_h s1 then None else Some DimensionMismatch, s')"
      and inv': "hnsw_inv s'"
      and f': "dimensions_h s' = dimensions_h s1" "M_h s' = M_h s1"
        "num_vectors_h s' =
          num_vectors_h s1 + length (takeWhile (\<lambda>v. length v = dimensions_h s1) vs)"
        "data_h s' = data_h s1 @ concat (takeWhile (\<lambda>v. length v = dimensions_h s1) vs)"
      by blast
    from a b True inv' f1 f' show ?thesis
      by simp
  qed
qed

lemma hnsw_inv_new: "hnsw_inv (HNSWIndex_new d me M efc)"
  by (simp add: hnsw_inv_def HNSWIndex_new_def links_ok_def degree_ok_def has_layer_def)

lemma hnsw_inv_clear: "hnsw_inv s \<Longrightarrow> hnsw_inv (hnsw_clear s)"
  by (simp add: hnsw_inv_def hnsw_clear_def links_ok_def degree_ok_def has_layer_def)

lemma hnsw_inv_set_ef: "hnsw_inv s \<Longrightarrow> hnsw_inv (hnsw_set_ef s ef)"
proof -
  have n: "nodes_h (hnsw_set_ef s ef) = nodes_h s"
    by (simp add: hnsw_set_ef_def)
  assume "hnsw_inv s"
  then show ?thesis
    unfolding hnsw_inv_def has_layer_cong [OF n] links_ok_cong [OF n]
    using degree_ok_cong [OF n] by (simp add: hnsw_set_ef_def)
qed

lemma hnsw_run_snoc: "hnsw_run L s (ops @ [x]) = hnsw_step L (hnsw_run L s ops) x"
  by (simp add: hnsw_run_def)

lemma hnsw_run_stored:
  "hnsw_inv (hnsw_run L (HNSWIndex_new d me M efc) ops) \<and>
   dimensions_h (hnsw_run L (HNSWIndex_new d me M efc) ops) = d \<and>
   M_h (hnsw_run L (HNSWIndex_new d me M efc) ops) = M \<and>
   num_vectors_h (hnsw_run L (HNSWIndex_new d me M efc) ops) = length (hnsw_stored d ops) \<and>
   data_h (hnsw_run L (HNSWIndex_new d me M efc) ops) = concat (hnsw_stored d ops) \<and>
   (\<forall>v \<in> set (hnsw_stored d ops). length v = d)"
proof (induction ops rule: rev_induct)
  case Nil
  show ?case
    using hnsw_inv_new [of d me M efc]
    by (simp add: hnsw_run_def hnsw_stored_def) (simp add: HNSWIndex_new_def)
next
  case (snoc x ops)
  define s where "s = hnsw_run L (HNSWIndex_new d me M efc) ops"
  have inv: "hnsw_inv s" and f: "dimensions_h s = d" "M_h s = M"
    "num_vectors_h s = length (hnsw_stored d ops)" "data_h s = concat (hnsw_stored d ops)"
    and lens: "\<forall>v \<in> set (hnsw_stored d ops). length v = d"
    using snoc unfolding s_def by simp_all
  have st: "hnsw_stored d (ops @ [x]) = hnsw_stored_step d (hnsw_stored d ops) x"
    by (simp add: hnsw_stored_def)
  have "hnsw_inv (hnsw_step L s x) \<and> dimensions_h (hnsw_step L s x) = d \<and>
     M_h (hnsw_step L s x) = M \<and>
     num_vectors_h (hnsw_step L s x) = length (hnsw_stored_step d (hnsw_stored d ops) x) \<and>
     data_h (hnsw_step L s x) = concat (hnsw_stored_step d (hnsw_stored d ops) x) \<and>
     (\<forall>v \<in> set (hnsw_stored_step d (hnsw_stored d ops) x). length v = d)"
  proof (cases x)
    case (Add v)
    show ?thesis
    proof (cases "length v = d")
      case True
      from hnsw_add_result [OF inv, of v L] True f(1)
      obtain s' where "hnsw_add L s v = (None, s')" "hnsw_inv s'"
        "dimensions_h s' = dimensions_h s" "M_h s' = M_h s"
        "num_vectors_h s' = num_vectors_h s + 1" "data_h s' = data_h s @ v"
        by auto
      with Add True f lens show ?thesis by simp
    next
      case False
      with Add inv f lens show ?thesis
        by (simp add: hnsw_add_mismatch)
    qed
  next
    case (AddBatch vs)
    from hnsw_add_batch_result [OF inv, of L vs]
    obtain s' where "snd (hnsw_add_batch L s vs) = s'" "hnsw_inv s'"
      "dimensions_h s' = dimensions_h s" "M_h s' = M_h s"
      "num_vectors_h s' =
          num_vectors_h s + length (takeWhile (\<lambda>v. length v = dimensions_h s) vs)"
      "data_h s' = data_h s @ concat (takeWhile (\<lambda>v. length v = dimensions_h s) vs)"
      by force
    with AddBatch f lens show ?thesis
      by (auto dest: set_takeWhileD)
  next
    case (Search q k)
    with inv f lens show ?thesis by simp
  next
    case Clear
    with hnsw_inv_clear [OF inv] f show ?thesis
      by (simp add: hnsw_clear_def)
  next
    case (SetEf ef)
    with hnsw_inv_set_ef [OF inv, of ef] f lens show ?thesis
      by (simp add: hnsw_set_ef_def)
  qed
  then show ?case
    unfolding hnsw_run_snoc st s_def .
qed

lemma hnsw_inv_closed:
  assumes "hnsw_inv s"
  shows "closed_at s l {u. has_layer s u l}"
proof -
  have nodes_n: "length (nodes_h s) = num_vectors_h s"
    and data_n: "length (data_h s) = num_vectors_h s * dimensions_h s" and links: "links_ok s"
    using assms unfolding hnsw_inv_def by simp_all
  have "row_ok s u" if "has_layer s u l" for u
  proof -
    have "u < num_vectors_h s"
      using that nodes_n by (simp add: has_layer_def)
    then have "(u + 1) * dimensions_h s \<le> num_vectors_h s * dimensions_h s"
      by (intro mult_le_mono1) simp
    then show ?thesis
      using data_n by (simp add: row_ok_def)
  qed
  then show ?thesis
    unfolding closed_at_def using links unfolding links_ok_def by auto
qed

lemma hnsw_search_result:
  assumes inv: "hnsw_inv s" and q: "length query = dimensions_h s" and ne: "0 < num_vectors_h s"
  shows "\<exists>cur cands.
     descend s query (entry_point_h s) (max_layer_h s) 0 = Inr cur \<and>
     search_layer s query cur (max (ef_search_h s) (min k (num_vectors_h s))) 0 = Inr cands \<and>
     cands \<noteq> [] \<and> sorted (map distance cands) \<and> distinct (map id_c cands) \<and>
     (\<forall>c \<in> set cands. has_layer s (id_c c) 0 \<and> distance c = hnsw_dist s query (id_c c)) \<and>
     hnsw_search s query k =
       Inr (map (\<lambda>c. (id_c c, distance c)) (take (min k (num_vectors_h s)) cands))"
proof -
  define A where "A = (\<lambda>l. {u. has_layer s u l})"
  have q': "dimensions_h s \<le> length query"
    using q by simp
  have closed: "\<forall>l. closed_at s l (A l)"
    unfolding A_def using hnsw_inv_closed [OF inv] by blast
  have anti: "\<forall>l. A (Suc l) \<subseteq> A l"
    unfolding A_def by (auto intro: has_layer_mono)
  have "entry_point_h s \<in> A (max_layer_h s)"
    using inv ne unfolding hnsw_inv_def A_def by simp
  from descend_result [OF q' closed anti this, of 0]
  obtain cur where d: "descend s query (entry_point_h s) (max_layer_h s) 0 = Inr cur"
    and cur: "cur \<in> A 0"
    by auto
  from search_layer_result [OF q' _ cur, of 0 "max (ef_search_h s) (min k (num_vectors_h s))"]
    closed
  obtain cands where
    sl: "search_layer s query cur (max (ef_search_h s) (min k (num_vectors_h s))) 0 = Inr cands"
    and props: "cands \<noteq> []" "sorted (map distance cands)" "distinct (map id_c cands)"
      "\<forall>c \<in> set cands. id_c c \<in> A 0 \<and> distance c = hnsw_dist s query (id_c c)"
    by blast
  have "hnsw_search s query k =
       Inr (map (\<lambda>c. (id_c c, distance c)) (take (min k (num_vectors_h s)) cands))"
    using q ne d sl by (simp add: hnsw_search_def)
  with d sl props show ?thesis
    unfolding A_def by auto
qed

section \<open>Claims about the brute-force search\<close>




section \<open>Claims about errors and atomicity\<close>

lemma bf_add_batch_atomic:
  "list_ex (\<lambda>vec. length vec \<noteq> dimensions_v s) vectors \<Longrightarrow>
   bf_add_batch s vectors = (Some DimensionMismatch, s)"
  by (simp add: bf_add_batch_def)

lemma bf_search_defined:
  assumes "bf_inv s" and "length query = dimensions_v s"
  shows "\<exists>res. bf_search partial_sort s query k = Inr res"
  using assms bf_scan_dist [OF assms(1), of query] by (simp add: bf_search_def)

text \<open>
  Claim C2 holds for the brute-force index (\<open>bf_add_batch_atomic\<close>) and fails for the HNSW
  index, whose \<^verbatim>\<open>add_batch\<close> calls \<^verbatim>\<open>add\<close> vector by vector without checking the batch
  first: with \<open>dim = 1\<close>, the batch \<open>[[1], [1, 2]]\<close> on a new index raises the dimension error
  after the first vector has been stored, so \<^verbatim>\<open>len()\<close> is 1 and not 0.
\<close>

theorem hnsw_add_batch_not_atomic:
  "fst (hnsw_add_batch L (HNSWIndex_new 1 1000000 16 200) [[1], [1, 2]]) = Some DimensionMismatch \<and>
   num_vectors_h (HNSWIndex_new 1 1000000 16 200) = 0 \<and>
   num_vectors_h (snd (hnsw_add_batch L (HNSWIndex_new 1 1000000 16 200) [[1], [1, 2]])) = 1 \<and>
   data_h (snd (hnsw_add_batch L (HNSWIndex_new 1 1000000 16 200) [[1], [1, 2]])) = [1]"
  by (simp add: hnsw_add_def HNSWIndex_new_def get_random_level_def)

text \<open>
  Claim C3 fails on the code: \<^verbatim>\<open>clear()\<close> leaves \<^verbatim>\<open>rng_\<close> where it is, while the constructor
  seeds it. After one insertion and \<^verbatim>\<open>clear()\<close> the generator is one draw ahead of a new
  index, so the same vector inserted again gets the level of the second draw, and a new
  index gives it the level of the first.
\<close>

theorem hnsw_clear_keeps_rng:
  "rng_h (hnsw_clear s) = rng_h s \<and>
   rng_h (HNSWIndex_new 1 1000000 16 200) = 0 \<and>
   rng_h (hnsw_clear (snd (hnsw_add L (HNSWIndex_new 1 1000000 16 200) [0]))) = 1 \<and>
   max_layer_h (snd (hnsw_add L (HNSWIndex_new 1 1000000 16 200) [0])) = L 0 \<and>
   max_layer_h (snd (hnsw_add L
      (hnsw_clear (snd (hnsw_add L (HNSWIndex_new 1 1000000 16 200) [0]))) [0])) = L 1"
  by (simp add: hnsw_add_def hnsw_clear_def HNSWIndex_new_def get_random_level_def)

text \<open>
  Claim C4, as the code has it: \<^verbatim>\<open>set_ef\<close> checks nothing. Every \<open>ef\<close> of type \<^verbatim>\<open>size_t\<close>, zero
  included, is stored in \<^verbatim>\<open>ef_search_\<close>, after any sequence of operations, and nothing
  else changes; the function has no error to raise.
\<close>

theorem hnsw_set_ef_stores_any_value:
  "hnsw_set_ef s ef = s\<lparr>ef_search_h := ef\<rparr> \<and>
   ef_search_h (hnsw_run L (HNSWIndex_new d me M efc) (ops @ [SetEf ef])) = ef"
  by (simp add: hnsw_set_ef_def hnsw_run_def)

text \<open>Claim C4 as stated fails: \<^verbatim>\<open>set_ef(0)\<close> is accepted and overwrites \<^verbatim>\<open>ef_search_\<close>.\<close>

theorem hnsw_set_ef_zero_counterexample:
  "ef_search_h (HNSWIndex_new 4 1000000 16 200) = 100 \<and>
   ef_search_h (hnsw_set_ef (HNSWIndex_new 4 1000000 16 200) 0) = 0"
  by (simp add: hnsw_set_ef_def HNSWIndex_new_def)

text \<open>
  Claim C9. After any sequence of operations, \<^verbatim>\<open>add\<close>, \<^verbatim>\<open>add_batch\<close> and \<^verbatim>\<open>search\<close> of both
  indexes raise the dimension error exactly when an input vector has a length other than
  \<open>dim\<close>, and raise nothing otherwise; \<^verbatim>\<open>search\<close> checks the query before it looks at the
  size of the index, so also on an empty one.
\<close>

theorem dimension_mismatch_iff:
  "fst (bf_add (bf_run d bops) v) = (if length v \<noteq> d then Some DimensionMismatch else None) \<and>
   fst (bf_add_batch (bf_run d bops) vs) =
     (if \<exists>w \<in> set vs. length w \<noteq> d then Some DimensionMismatch else None) \<and>
   (length q \<noteq> d \<longrightarrow> bf_search partial_sort (bf_run d bops) q k = Inl DimensionMismatch) \<and>
   (length q = d \<longrightarrow> (\<exists>res. bf_search partial_sort (bf_run d bops) q k = Inr res)) \<and>
   fst (hnsw_add L (hnsw_run L (HNSWIndex_new d me M efc) ops) v) =
     (if length v \<noteq> d then Some DimensionMismatch else None) \<and>
   fst (hnsw_add_batch L (hnsw_run L (HNSWIndex_new d me M efc) ops) vs) =
     (if \<exists>w \<in> set vs. length w \<noteq> d then Some DimensionMismatch else None) \<and>
   (length q \<noteq> d \<longrightarrow>
      hnsw_search (hnsw_run L (HNSWIndex_new d me M efc) ops) q k = Inl DimensionMismatch) \<and>
   (length q = d \<longrightarrow>
      (\<exists>res. hnsw_search (hnsw_run L (HNSWIndex_new d me M efc) ops) q k = Inr res))"
proof -
  define b where "b = bf_run d bops"
  define s where "s = hnsw_run L (HNSWIndex_new d me M efc) ops"
  have bd: "dimensions_v b = d" and binv: "bf_inv b"
    using bf_run_stored [of d bops] bf_inv_run [of d bops] by (simp_all add: b_def)
  have sd: "dimensions_h s = d" and sinv: "hnsw_inv s"
    using hnsw_run_stored [of L d me M efc ops] by (simp_all add: s_def)
  have 1: "fst (bf_add b v) = (if length v \<noteq> d then Some DimensionMismatch else None)"
    by (simp add: bf_add_def bd)
  have 2: "fst (bf_add_batch b vs) =
     (if \<exists>w \<in> set vs. length w \<noteq> d then Some DimensionMismatch else None)"
    by (simp add: bf_add_batch_def bd list_ex_iff)
  have 3: "length q \<noteq> d \<longrightarrow> bf_search partial_sort b q k = Inl DimensionMismatch"
    by (simp add: bf_search_def bd)
  have 4: "length q = d \<longrightarrow> (\<exists>res. bf_search partial_sort b q k = Inr res)"
    using bf_search_defined [OF binv, of q partial_sort k] by (simp add: bd)
  have 5: "fst (hnsw_add L s v) = (if length v \<noteq> d then Some DimensionMismatch else None)"
  proof (cases "length v = d")
    case True
    with hnsw_add_result [OF sinv, of v L] sd show ?thesis by auto
  next
    case False
    then show ?thesis by (simp add: hnsw_add_mismatch sd)
  qed
  have 6: "fst (hnsw_add_batch L s vs) =
     (if \<exists>w \<in> set vs. length w \<noteq> d then Some DimensionMismatch else None)"
    using hnsw_add_batch_result [OF sinv, of L vs] sd by auto
  have 7: "length q \<noteq> d \<longrightarrow> hnsw_search s q k = Inl DimensionMismatch"
    by (simp add: hnsw_search_def sd)
  have 8: "length q = d \<longrightarrow> (\<exists>res. hnsw_search s q k = Inr res)"
  proof (cases "num_vectors_h s = 0")
    case True
    then show ?thesis by (simp add: hnsw_search_def sd)
  next
    case False
    then show ?thesis
      using hnsw_search_result [OF sinv, of q k] sd by auto
  qed
  from 1 2 3 4 5 6 7 8 show ?thesis
    unfolding b_def s_def by blast
qed

theorem dimension_mismatch_iff_witness:
  "bf_search partial_sort_fifo (bf_run 2 []) [1] 3 = Inl DimensionMismatch \<and>
   hnsw_search (hnsw_run (\<lambda>n. 0) (HNSWIndex_new 2 1000000 16 200) []) [1] 3
     = Inl DimensionMismatch \<and>
   fst (bf_add (bf_run 2 []) [1, 2]) = None \<and>
   fst (hnsw_add (\<lambda>n. 0) (hnsw_run (\<lambda>n. 0) (HNSWIndex_new 2 1000000 16 200) []) [1, 2]) = None \<and>
   fst (hnsw_add_batch (\<lambda>n. 0) (hnsw_run (\<lambda>n. 0) (HNSWIndex_new 2 1000000 16 200) [])
          [[1, 2], [3]]) = Some DimensionMismatch \<and>
   fst (bf_add_batch (bf_run 2 []) [[1, 2], [3]]) = Some DimensionMismatch \<and>
   length [1 :: real] \<noteq> 2"
  using dimension_mismatch_iff [of 2 "[]" "[1, 2]" "[[1, 2], [3]]" "[1]" partial_sort_fifo 3
      "\<lambda>n. 0" 1000000 16 200 "[]"]
    dimension_mismatch_iff [of 2 "[]" "[1, 2]" "[[1, 2], [3]]" "[1, 2]" partial_sort_fifo 3
      "\<lambda>n. 0" 1000000 16 200 "[]"]
  by simp

section \<open>Claims about the invariants\<close>

text \<open>
  Claim C6. After any sequence of operations on either index, the flat buffer has length
  \<open>len() * dim\<close>, \<open>len()\<close> is the number of vectors accepted since the last \<^verbatim>\<open>clear()\<close>, and
  the positions \<open>[i * dim, (i + 1) * dim)\<close> hold the \<open>i\<close>-th of them.
\<close>

theorem arena_holds_stored_vectors:
  "length (data_v (bf_run d bops)) = num_vectors_v (bf_run d bops) * dimensions_v (bf_run d bops) \<and>
   dimensions_v (bf_run d bops) = d \<and>
   num_vectors_v (bf_run d bops) = length (bf_stored d bops) \<and>
   (\<forall>i < num_vectors_v (bf_run d bops).
      take d (drop (i * d) (data_v (bf_run d bops))) = bf_stored d bops ! i) \<and>
   length (data_h (hnsw_run L (HNSWIndex_new d me M efc) ops)) =
     num_vectors_h (hnsw_run L (HNSWIndex_new d me M efc) ops) *
     dimensions_h (hnsw_run L (HNSWIndex_new d me M efc) ops) \<and>
   dimensions_h (hnsw_run L (HNSWIndex_new d me M efc) ops) = d \<and>
   num_vectors_h (hnsw_run L (HNSWIndex_new d me M efc) ops) = length (hnsw_stored d ops) \<and>
   (\<forall>i < num_vectors_h (hnsw_run L (HNSWIndex_new d me M efc) ops).
      take d (drop (i * d) (data_h (hnsw_run L (HNSWIndex_new d me M efc) ops)))
        = hnsw_stored d ops ! i)"
proof -
  define b where "b = bf_run d bops"
  define s where "s = hnsw_run L (HNSWIndex_new d me M efc) ops"
  have b: "dimensions_v b = d" "num_vectors_v b = length (bf_stored d bops)"
    "data_v b = concat (bf_stored d bops)" "\<forall>v \<in> set (bf_stored d bops). length v = d"
    using bf_run_stored [of d bops] by (simp_all add: b_def)
  have s: "dimensions_h s = d" "num_vectors_h s = length (hnsw_stored d ops)"
    "data_h s = concat (hnsw_stored d ops)" "\<forall>v \<in> set (hnsw_stored d ops). length v = d"
    using hnsw_run_stored [of L d me M efc ops] by (simp_all add: s_def)
  have 1: "length (data_v b) = num_vectors_v b * dimensions_v b"
    using bf_inv_run [of d bops] by (simp add: bf_inv_def b_def)
  have 2: "\<forall>i < num_vectors_v b. take d (drop (i * d) (data_v b)) = bf_stored d bops ! i"
    using row_of_concat [OF b(4)] by (simp add: b)
  have 3: "length (data_h s) = num_vectors_h s * dimensions_h s"
    using length_concat_rows [OF s(4)] by (simp add: s)
  have 4: "\<forall>i < num_vectors_h s. take d (drop (i * d) (data_h s)) = hnsw_stored d ops ! i"
    using row_of_concat [OF s(4)] by (simp add: s)
  from 1 2 3 4 b(1,2) s(1,2) show ?thesis
    unfolding b_def s_def by blast
qed

theorem arena_holds_stored_vectors_witness:
  "data_v (bf_run 2 [BfAdd [1, 2], BfAdd [9], BfAddBatch [[3, 4], [5, 6]], BfAddBatch [[7, 8], [0]]])
     = [1, 2, 3, 4, 5, 6] \<and>
   num_vectors_v (bf_run 2 [BfAdd [1, 2], BfAdd [9], BfAddBatch [[3, 4], [5, 6]],
     BfAddBatch [[7, 8], [0]]]) = 3 \<and>
   bf_stored 2 [BfAdd [1, 2], BfAdd [9], BfAddBatch [[3, 4], [5, 6]], BfAddBatch [[7, 8], [0]]] ! 2
     = [5, 6] \<and>
   take 2 (drop (2 * 2) (data_v (bf_run 2 [BfAdd [1, 2], BfAdd [9], BfAddBatch [[3, 4], [5, 6]],
     BfAddBatch [[7, 8], [0]]]))) = [5, 6] \<and>
   data_h (hnsw_run (\<lambda>n. 0) (HNSWIndex_new 2 100 16 200)
     [Add [1, 2], Add [9], AddBatch [[3, 4], [5, 6]], Search [0, 0] 2, AddBatch [[7, 8], [0]]])
     = [1, 2, 3, 4, 5, 6, 7, 8] \<and>
   num_vectors_h (hnsw_run (\<lambda>n. 0) (HNSWIndex_new 2 100 16 200)
     [Add [1, 2], Add [9], AddBatch [[3, 4], [5, 6]], Search [0, 0] 2, AddBatch [[7, 8], [0]]]) = 4 \<and>
   hnsw_stored 2
     [Add [1, 2], Add [9], AddBatch [[3, 4], [5, 6]], Search [0, 0] 2, AddBatch [[7, 8], [0]]] ! 3
     = [7, 8] \<and>
   take 2 (drop (3 * 2) (data_h (hnsw_run (\<lambda>n. 0) (HNSWIndex_new 2 100 16 200)
     [Add [1, 2], Add [9], AddBatch [[3, 4], [5, 6]], Search [0, 0] 2, AddBatch [[7, 8], [0]]])))
     = [7, 8]"
proof -
  define bops where "bops = [BfAdd [1, 2], BfAdd [9], BfAddBatch [[3, 4], [5, 6 :: real]],
     BfAddBatch [[7, 8], [0]]]"
  define ops where "ops = [Add [1, 2], Add [9], AddBatch [[3, 4], [5, 6 :: real]],
     Search [0, 0] 2, AddBatch [[7, 8], [0]]]"
  define L0 where "L0 = (\<lambda>n :: nat. 0 :: nat)"
  have e1: "data_v (bf_run 2 bops) = [1, 2, 3, 4, 5, 6]"
    unfolding bops_def by code_simp
  have e2: "bf_stored 2 bops = [[1, 2], [3, 4], [5, 6]]"
    unfolding bops_def by code_simp
  have e3: "data_h (hnsw_run L0 (HNSWIndex_new 2 100 16 200) ops) = [1, 2, 3, 4, 5, 6, 7, 8]"
    unfolding ops_def L0_def by code_simp
  have e4: "hnsw_stored 2 ops = [[1, 2], [3, 4], [5, 6], [7, 8]]"
    unfolding ops_def by code_simp
  from arena_holds_stored_vectors [of 2 bops L0 100 16 200 ops]
  have n: "num_vectors_v (bf_run 2 bops) = 3"
    "num_vectors_h (hnsw_run L0 (HNSWIndex_new 2 100 16 200) ops) = 4"
    and rows: "\<forall>i < num_vectors_v (bf_run 2 bops).
      take 2 (drop (i * 2) (data_v (bf_run 2 bops))) = bf_stored 2 bops ! i"
    "\<forall>i < num_vectors_h (hnsw_run L0 (HNSWIndex_new 2 100 16 200) ops).
      take 2 (drop (i * 2) (data_h (hnsw_run L0 (HNSWIndex_new 2 100 16 200) ops)))
        = hnsw_stored 2 ops ! i"
    by (simp_all add: e2 e4)
  have r1: "take 2 (drop (2 * 2) (data_v (bf_run 2 bops))) = [5, 6]"
    using rows(1) [rule_format, of 2] n(1) by (simp add: e2)
  have r2: "take 2 (drop (3 * 2) (data_h (hnsw_run L0 (HNSWIndex_new 2 100 16 200) ops)))
      = [7, 8]"
    using rows(2) [rule_format, of 3] n(2) by (simp add: e4)
  from e1 e2 e3 e4 n r1 r2 show ?thesis
    unfolding bops_def ops_def L0_def by simp
qed



text \<open>
  Claim C10. After any sequence of operations, every id in the neighbour list of a node on
  layer \<open>l\<close> names an existing node whose \<^verbatim>\<open>neighbors\<close> vector has at least \<open>l + 1\<close> entries,
  and no call of \<^verbatim>\<open>add\<close>, \<^verbatim>\<open>add_batch\<close> or \<^verbatim>\<open>search\<close> reads or writes outside a vector.
\<close>

theorem neighbour_accesses_in_bounds:
  "(\<forall>v < length (nodes_h (hnsw_run L (HNSWIndex_new d me M efc) ops)).
      \<forall>l < length (neighbors (nodes_h (hnsw_run L (HNSWIndex_new d me M efc) ops) ! v)).
        \<forall>u \<in> set (neighbors (nodes_h (hnsw_run L (HNSWIndex_new d me M efc) ops) ! v) ! l).
          u < length (nodes_h (hnsw_run L (HNSWIndex_new d me M efc) ops)) \<and>
          l + 1 \<le> length (neighbors (nodes_h (hnsw_run L (HNSWIndex_new d me M efc) ops) ! u))) \<and>
   fst (hnsw_add L (hnsw_run L (HNSWIndex_new d me M efc) ops) vector) \<noteq> Some OutOfBounds \<and>
   fst (hnsw_add_batch L (hnsw_run L (HNSWIndex_new d me M efc) ops) vectors)
     \<noteq> Some OutOfBounds \<and>
   hnsw_search (hnsw_run L (HNSWIndex_new d me M efc) ops) query k \<noteq> Inl OutOfBounds"
proof -
  define s where "s = hnsw_run L (HNSWIndex_new d me M efc) ops"
  have inv: "hnsw_inv s" and sd: "dimensions_h s = d"
    using hnsw_run_stored [of L d me M efc ops] by (simp_all add: s_def)
  then have links: "links_ok s"
    unfolding hnsw_inv_def by simp
  have 1: "u < length (nodes_h s) \<and> l + 1 \<le> length (neighbors (nodes_h s ! u))"
    if "v < length (nodes_h s)" "l < length (neighbors (nodes_h s ! v))"
      "u \<in> set (neighbors (nodes_h s ! v) ! l)" for v l u
  proof -
    have "has_layer s v l" "u \<in> set (nbrs s v l)"
      using that by (simp_all add: has_layer_def nbrs_def)
    with links have "has_layer s u l"
      unfolding links_ok_def by blast
    then show ?thesis
      by (simp add: has_layer_def)
  qed
  have 2: "fst (hnsw_add L s vector) \<noteq> Some OutOfBounds"
  proof (cases "length vector = dimensions_h s")
    case True
    with hnsw_add_result [OF inv, of vector L] show ?thesis by auto
  next
    case False
    then show ?thesis by (simp add: hnsw_add_mismatch)
  qed
  have 3: "fst (hnsw_add_batch L s vectors) \<noteq> Some OutOfBounds"
    using hnsw_add_batch_result [OF inv, of L vectors] by (auto split: if_splits)
  have 4: "hnsw_search s query k \<noteq> Inl OutOfBounds"
  proof (cases "length query = dimensions_h s \<and> 0 < num_vectors_h s")
    case True
    with hnsw_search_result [OF inv, of query k] show ?thesis by auto
  next
    case False
    then show ?thesis by (auto simp: hnsw_search_def)
  qed
  from 1 2 3 4 show ?thesis
    unfolding s_def by blast
qed

theorem neighbour_accesses_in_bounds_witness:
  "map neighbors (nodes_h (hnsw_run (\<lambda>n. if n = 1 then 2 else if n = 4 then 1 else 0)
      (HNSWIndex_new 1 100 1 200) [Add [0], Add [10], Add [1], Add [- 2], Add [5]]))
     = [[[2, 3]], [[0, 2], [4], []], [[0, 3], [], []], [[0, 2], [], []], [[2, 0], [1], []]] \<and>
   1 < length (nodes_h (hnsw_run (\<lambda>n. if n = 1 then 2 else if n = 4 then 1 else 0)
      (HNSWIndex_new 1 100 1 200) [Add [0], Add [10], Add [1], Add [- 2], Add [5]])) \<and>
   1 + 1 \<le> length (neighbors (nodes_h (hnsw_run (\<lambda>n. if n = 1 then 2 else if n = 4 then 1 else 0)
      (HNSWIndex_new 1 100 1 200) [Add [0], Add [10], Add [1], Add [- 2], Add [5]]) ! 1))"
proof -
  define L1 where "L1 = (\<lambda>n :: nat. if n = 1 then 2 else if n = 4 then 1 else 0 :: nat)"
  define s where "s = hnsw_run L1 (HNSWIndex_new 1 100 1 200)
      [Add [0], Add [10], Add [1], Add [- 2], Add [5]]"
  have e: "map neighbors (nodes_h s)
     = [[[2, 3]], [[0, 2], [4], []], [[0, 3], [], []], [[0, 2], [], []], [[2, 0], [1], []]]"
    unfolding s_def L1_def by code_simp
  have len: "length (nodes_h s) = 5"
    using arg_cong [OF e, of length] by simp
  have n4: "neighbors (nodes_h s ! 4) = [[2, 0], [1], []]"
    using arg_cong [OF e, of "\<lambda>xs. xs ! 4"] len by simp
  from neighbour_accesses_in_bounds [of L1 1 100 1 200
      "[Add [0], Add [10], Add [1], Add [- 2], Add [5]]"]
  have all: "\<forall>v < length (nodes_h s). \<forall>l < length (neighbors (nodes_h s ! v)).
        \<forall>u \<in> set (neighbors (nodes_h s ! v) ! l).
          u < length (nodes_h s) \<and> l + 1 \<le> length (neighbors (nodes_h s ! u))"
    unfolding s_def by blast
  have "1 < length (nodes_h s) \<and> 1 + 1 \<le> length (neighbors (nodes_h s ! 1))"
    using all [rule_format, of 4 1 1] len n4 by simp
  with e show ?thesis
    unfolding s_def L1_def by simp
qed

section \<open>Claims about the HNSW search\<close>






end
